theory Spec2Isabelle
  imports Complex_Main "HOL-Library.Word" "HOL-Library.Multiset"
begin

section \<open>Go values\<close>

text \<open>
  Go's \<^verbatim>\<open>int\<close> is 64 bits wide on the platforms the control plane is built for;
  \<^verbatim>\<open>++\<close> wraps around and \<^verbatim>\<open><\<close>, \<^verbatim>\<open>>\<close> compare the two's complement
  reading (\<open>sint\<close>).
\<close>

type_synonym go_int = "64 word"

text \<open>
  A Go pointer: \<open>Null\<close> is \<^verbatim>\<open>nil\<close>, \<open>Ptr x\<close> points to the value \<open>x\<close>, which
  \<open>deref\<close> reads.
\<close>

datatype 'a ptr = Null | Ptr (deref: 'a)

section \<open>The configuration objects\<close>

text \<open>
  The fields of \<^verbatim>\<open>v2.Cluster\<close> and of the messages below it that the visitor sets;
  every other field keeps its zero value and is left out. The health check messages are
  built outside this package and stay opaque. \<^verbatim>\<open>time.Duration\<close> counts nanoseconds.
\<close>

typedecl HealthCheck
typedecl core_HealthCheck

datatype Cluster_DiscoveryType =
  Cluster_STATIC | Cluster_STRICT_DNS | Cluster_LOGICAL_DNS | Cluster_EDS | Cluster_ORIGINAL_DST

datatype Cluster_LbPolicy =
  Cluster_ROUND_ROBIN | Cluster_LEAST_REQUEST | Cluster_RING_HASH | Cluster_RANDOM
  | Cluster_ORIGINAL_DST_LB | Cluster_MAGLEV

datatype ApiConfigSource_ApiType =
  ApiConfigSource_UNSUPPORTED_REST_LEGACY | ApiConfigSource_REST | ApiConfigSource_GRPC

datatype GrpcService = GrpcService_EnvoyGrpc (ClusterName: string)

record ApiConfigSource =
  ApiType :: ApiConfigSource_ApiType
  GrpcServices :: "GrpcService ptr list"

datatype ConfigSource = ConfigSource_ApiConfigSource "ApiConfigSource ptr"

record Cluster_EdsClusterConfig =
  EdsConfig :: "ConfigSource ptr"
  ServiceName :: string

record Percent =
  Value :: real

record Cluster_CommonLbConfig =
  HealthyPanicThreshold :: "Percent ptr"

record UInt32Value =
  UInt32 :: "32 word"

record CircuitBreakers_Thresholds =
  MaxConnections :: "UInt32Value ptr"
  MaxPendingRequests :: "UInt32Value ptr"
  MaxRequests :: "UInt32Value ptr"
  MaxRetries :: "UInt32Value ptr"

record CircuitBreakers =
  Thresholds :: "CircuitBreakers_Thresholds ptr list"

text \<open>\<^verbatim>\<open>core.Http2ProtocolOptions{}\<close>: a message with every field at its zero value.\<close>

datatype Http2ProtocolOptions = Http2ProtocolOptions_zero

record CommonTlsContext =
  AlpnProtocols :: "string list"

record UpstreamTlsContext =
  CommonTlsContext :: "CommonTlsContext ptr"

record Cluster =
  Name :: string
  Type :: Cluster_DiscoveryType
  EdsClusterConfig :: "Cluster_EdsClusterConfig ptr"
  ConnectTimeout :: int
  LbPolicy :: Cluster_LbPolicy
  CommonLbConfig :: "Cluster_CommonLbConfig ptr"
  HealthChecks :: "core_HealthCheck ptr list"
  CircuitBreakers :: "CircuitBreakers ptr"
  Http2ProtocolOptions :: "Http2ProtocolOptions ptr"
  TlsContext :: "UpstreamTlsContext ptr"

section \<open>Channels\<close>

text \<open>
  A \<^verbatim>\<open>chan int\<close> value is \<^verbatim>\<open>nil\<close> or a reference to a channel object made by
  \<^verbatim>\<open>make\<close>. The channel object follows the Go runtime: the capacity given to
  \<^verbatim>\<open>make\<close>, the buffered values (oldest first), the number of goroutines parked in a
  receive on it, and whether it has been closed. A parked receiver takes the value of a
  send straight from the sender; \<open>taken\<close> lists the values that left the channel this way
  (oldest first), which are in the hands of the receivers.
\<close>

type_synonym chan = "nat ptr"

record hchan =
  dataqsiz :: nat
  buf :: "go_int list"
  recvq :: nat
  taken :: "go_int list"
  chan_closed :: bool

type_synonym heap = "nat \<Rightarrow> hchan"

text \<open>
  The send statement \<^verbatim>\<open>ch <- v\<close>. On a nil channel it blocks forever; on a closed channel
  it panics; a parked receiver takes the value at once; otherwise the value goes into the
  buffer when there is room, and the sender parks when there is none (an unbuffered channel
  never has room).
\<close>

datatype send_result = Sent heap | Parked | SendOnClosed

fun chansend :: "chan \<Rightarrow> go_int \<Rightarrow> heap \<Rightarrow> send_result" where
  "chansend Null v h = Parked"
| "chansend (Ptr a) v h =
     (if chan_closed (h a) then SendOnClosed
      else if 0 < recvq (h a) then
        Sent (h(a := (h a)\<lparr>recvq := recvq (h a) - 1, taken := taken (h a) @ [v]\<rparr>))
      else if length (buf (h a)) < dataqsiz (h a) then Sent (h(a := (h a)\<lparr>buf := buf (h a) @ [v]\<rparr>))
      else Parked)"

text \<open>
  How many sends a channel can take before a sender parks, as long as nobody else touches
  it: one per parked receiver and one per free buffer slot.
\<close>

fun room :: "heap \<Rightarrow> chan \<Rightarrow> nat" where
  "room h Null = 0"
| "room h (Ptr a) =
     (if chan_closed (h a) then 0 else recvq (h a) + (dataqsiz (h a) - length (buf (h a))))"

text \<open>
  What a channel object is after \<open>n\<close> sends of the value \<open>v\<close> have reached it: the first
  of them go to the parked receivers, one each, and the others into the buffer.
\<close>

definition arrive :: "nat \<Rightarrow> go_int \<Rightarrow> hchan \<Rightarrow> hchan" where
  "arrive n v x =
     x\<lparr>recvq := recvq x - n,
       taken := taken x @ replicate (min n (recvq x)) v,
       buf := buf x @ replicate (n - recvq x) v\<rparr>"

section \<open>The cluster cache\<close>

text \<open>
  What a call does is one of three things: it returns, it stays blocked in a channel send
  (still holding \<^verbatim>\<open>c.mu\<close>), or it panics. Each outcome carries the state reached. A call
  holds \<^verbatim>\<open>c.mu\<close> from its first statement to its last, so a call is one step of the
  model.
\<close>

datatype 'a outcome = Returns 'a | Blocks 'a | Panics 'a

fun state_of :: "'a outcome \<Rightarrow> 'a" where
  "state_of (Returns s) = s"
| "state_of (Blocks s) = s"
| "state_of (Panics s) = s"

fun returns :: "'a outcome \<Rightarrow> bool" where
  "returns (Returns s) = True"
| "returns (Blocks s) = False"
| "returns (Panics s) = False"

text \<open>
  A completed send: the channel and the value it was given. In the record of the cache,
  the fields \<^verbatim>\<open>values\<close> and \<^verbatim>\<open>last\<close> are \<open>values_map\<close> and \<open>last_count\<close>; the mutex
  has no field, since a call is one step.
\<close>

type_synonym delivery = "chan \<times> go_int"

type_synonym clusters = "string \<rightharpoonup> Cluster ptr"

record clusterCache =
  values_map :: clusters
  waiters :: "chan list"
  last_count :: go_int

type_synonym cache_state = "clusterCache \<times> heap \<times> delivery list"

text \<open>
  The cache in which a call leaves off, the channels as it leaves them, and the sends it
  has completed.
\<close>

abbreviation cache_of :: "cache_state outcome \<Rightarrow> clusterCache" where
  "cache_of r \<equiv> fst (state_of r)"

abbreviation heap_of :: "cache_state outcome \<Rightarrow> heap" where
  "heap_of r \<equiv> fst (snd (state_of r))"

abbreviation sent_of :: "cache_state outcome \<Rightarrow> delivery list" where
  "sent_of r \<equiv> snd (snd (state_of r))"

text \<open>The zero value of the struct: a nil map, a nil slice, counter 0.\<close>

definition zero_clusterCache :: clusterCache where
  "zero_clusterCache = \<lparr>values_map = Map.empty, waiters = [], last_count = 0\<rparr>"

text \<open>
  \<^verbatim>\<open>Register\<close>: a stale caller is sent the counter at once; any other caller is appended to
  the waiters. The third component of the state lists the sends the call completed.
\<close>

definition Register :: "clusterCache \<Rightarrow> chan \<Rightarrow> go_int \<Rightarrow> heap \<Rightarrow> cache_state outcome" where
  "Register c ch lst h =
     (if sint lst < sint (last_count c) then
        (case chansend ch (last_count c) h of
           Sent h' \<Rightarrow> Returns (c, h', [(ch, last_count c)])
         | Parked \<Rightarrow> Blocks (c, h, [])
         | SendOnClosed \<Rightarrow> Panics (c, h, []))
      else Returns (c\<lparr>waiters := waiters c @ [ch]\<rparr>, h, []))"

text \<open>The loop of \<^verbatim>\<open>notify\<close>: one send per waiter, in slice order.\<close>

fun notify_range :: "go_int \<Rightarrow> chan list \<Rightarrow> heap \<Rightarrow> delivery list \<Rightarrow> (heap \<times> delivery list) outcome" where
  "notify_range v [] h ds = Returns (h, ds)"
| "notify_range v (ch # chs) h ds =
     (case chansend ch v h of
        Sent h' \<Rightarrow> notify_range v chs h' (ds @ [(ch, v)])
      | Parked \<Rightarrow> Blocks (h, ds)
      | SendOnClosed \<Rightarrow> Panics (h, ds))"

definition notify :: "clusterCache \<Rightarrow> heap \<Rightarrow> cache_state outcome" where
  "notify c h =
     (let c1 = c\<lparr>last_count := last_count c + 1\<rparr> in
      case notify_range (last_count c1) (waiters c1) h [] of
        Returns (h', ds) \<Rightarrow> Returns (c1\<lparr>waiters := []\<rparr>, h', ds)
      | Blocks (h', ds) \<Rightarrow> Blocks (c1, h', ds)
      | Panics (h', ds) \<Rightarrow> Panics (c1, h', ds))"

definition Update :: "clusterCache \<Rightarrow> clusters \<Rightarrow> heap \<Rightarrow> cache_state outcome" where
  "Update c v h = notify (c\<lparr>values_map := v\<rparr>) h"

text \<open>
  \<^verbatim>\<open>Values\<close>: the loop over the map. Go presents the entries of a map in an order of its
  own choosing; \<open>ks\<close> is the order of the keys in this run of the loop (a key that is not in
  the map is not presented). Reading \<^verbatim>\<open>v.Name\<close> through a nil pointer panics, which is the
  result \<open>None\<close>.
\<close>

fun Values_range :: "(string \<Rightarrow> bool) \<Rightarrow> clusters \<Rightarrow> string list \<Rightarrow> Cluster list \<Rightarrow> Cluster list option" where
  "Values_range flt m [] vs = Some vs"
| "Values_range flt m (k # ks) vs =
     (case m k of
        None \<Rightarrow> Values_range flt m ks vs
      | Some Null \<Rightarrow> None
      | Some (Ptr v) \<Rightarrow> Values_range flt m ks (if flt (Name v) then vs @ [v] else vs))"

definition Values :: "clusterCache \<Rightarrow> string list \<Rightarrow> (string \<Rightarrow> bool) \<Rightarrow> Cluster list option" where
  "Values c ks flt = Values_range flt (values_map c) ks []"

text \<open>
  A run of \<^verbatim>\<open>Update\<close> calls on one cache, each made when the one before it has
  returned; the run ends with the first call that does not return.
\<close>

fun Updates :: "clusterCache \<Rightarrow> heap \<Rightarrow> clusters list \<Rightarrow> cache_state outcome" where
  "Updates c h [] = Returns (c, h, [])"
| "Updates c h (v # vs) =
     (case Update c v h of
        Returns (c', h', ds) \<Rightarrow>
          (case Updates c' h' vs of
             Returns (c'', h'', ds') \<Rightarrow> Returns (c'', h'', ds @ ds')
           | Blocks (c'', h'', ds') \<Rightarrow> Blocks (c'', h'', ds @ ds')
           | Panics (c'', h'', ds') \<Rightarrow> Panics (c'', h'', ds @ ds'))
      | Blocks s \<Rightarrow> Blocks s
      | Panics s \<Rightarrow> Panics s)"

section \<open>The routing graph\<close>

text \<open>
  What the visitor reads of a \<^verbatim>\<open>*dag.Service\<close>: the results of its methods
  \<^verbatim>\<open>Namespace()\<close> and \<^verbatim>\<open>Name()\<close>, the name of its \<^verbatim>\<open>ServicePort\<close>, and its fields.
\<close>

record Service =
  svc_Namespace :: string
  svc_Name :: string
  svc_ServicePort_Name :: string
  svc_LoadBalancerStrategy :: string
  svc_HealthCheck :: "HealthCheck ptr"
  svc_MaxConnections :: go_int
  svc_MaxPendingRequests :: go_int
  svc_MaxRequests :: go_int
  svc_MaxRetries :: go_int
  svc_Protocol :: string

text \<open>
  A \<^verbatim>\<open>dag.Vertex\<close> is a \<^verbatim>\<open>*dag.Service\<close> or a vertex of another kind; its method
  \<^verbatim>\<open>Visit\<close> calls the function it is given on each child, here in the order of the list.
  A vertex that two edges reach is met once along each edge, so it stands once under each
  parent. The graph has no cycle: on a cycle the visit would not end.
\<close>

datatype Vertex = ServiceVertex Service "Vertex list" | OtherVertex "Vertex list"

text \<open>
  The functions the visitor calls that are defined elsewhere: \<^verbatim>\<open>envoy.Clustername\<close>,
  \<^verbatim>\<open>envoy.HealthCheck\<close> and the helper \<^verbatim>\<open>u32\<close>. The visitor is modelled for any three
  functions of these types.
\<close>

record deps =
  Clustername :: "Service \<Rightarrow> string"
  envoy_HealthCheck :: "HealthCheck \<Rightarrow> core_HealthCheck ptr"
  u32 :: "go_int \<Rightarrow> UInt32Value ptr"

text \<open>
  Modelled from the spec: the helper \<^verbatim>\<open>u32\<close> is not under \<^verbatim>\<open>src/\<close>. A limit that is
  present "becomes an explicit optional threshold", and \<^verbatim>\<open>uint32OrNil\<close> is documented to
  return "a *types.UInt32Value containing the v": the helper makes the message that holds
  the limit. The field of that message is a \<^verbatim>\<open>uint32\<close>, so the limit, a Go \<^verbatim>\<open>int\<close>, is
  converted as Go converts between integer types, which keeps its low 32 bits.
\<close>

definition u32_helper :: "go_int \<Rightarrow> UInt32Value ptr" where
  "u32_helper val = Ptr \<lparr>UInt32 = ucast val\<rparr>"

section \<open>The cluster visitor\<close>

definition Millisecond :: int where
  "Millisecond = 1000000"

definition edslbstrategy :: "string \<Rightarrow> Cluster_LbPolicy" where
  "edslbstrategy lbStrategy =
     (if lbStrategy = ''WeightedLeastRequest'' then Cluster_LEAST_REQUEST
      else if lbStrategy = ''RingHash'' then Cluster_RING_HASH
      else if lbStrategy = ''Maglev'' then Cluster_MAGLEV
      else if lbStrategy = ''Random'' then Cluster_RANDOM
      else Cluster_ROUND_ROBIN)"

definition edshealthcheck :: "deps \<Rightarrow> HealthCheck ptr \<Rightarrow> core_HealthCheck ptr list" where
  "edshealthcheck E hc = (case hc of Null \<Rightarrow> [] | Ptr x \<Rightarrow> [envoy_HealthCheck E x])"

definition uint32OrNil :: "deps \<Rightarrow> go_int \<Rightarrow> UInt32Value ptr" where
  "uint32OrNil E val = (if val = 0 then Null else u32 E val)"

text \<open>\<^verbatim>\<open>strings.Join\<close>.\<close>

fun Join :: "string list \<Rightarrow> string \<Rightarrow> string" where
  "Join [] sep = []"
| "Join [x] sep = x"
| "Join (x # y # ys) sep = x @ sep @ Join (y # ys) sep"

definition apiconfigsource :: "string list \<Rightarrow> ConfigSource ptr" where
  "apiconfigsource cs =
     Ptr (ConfigSource_ApiConfigSource (Ptr \<lparr>ApiType = ApiConfigSource_GRPC,
       GrpcServices = map (\<lambda>c. Ptr (GrpcService_EnvoyGrpc c)) cs\<rparr>))"

definition edsconfig :: "string \<Rightarrow> Service \<Rightarrow> Cluster_EdsClusterConfig ptr" where
  "edsconfig source service =
     (let name = [svc_Namespace service, svc_Name service, svc_ServicePort_Name service];
          name = (if name ! 2 = [] then take 2 name else name)
      in Ptr \<lparr>EdsConfig = apiconfigsource [source], ServiceName = Join name ''/''\<rparr>)"

text \<open>
  The cluster that \<^verbatim>\<open>edscluster\<close> builds for a service it has not met, under the name
  it computed.
\<close>

definition edscluster_build :: "deps \<Rightarrow> string \<Rightarrow> Service \<Rightarrow> Cluster" where
  "edscluster_build E name svc =
     (let c = \<lparr>Name = name,
                Type = Cluster_EDS,
                EdsClusterConfig = edsconfig ''contour'' svc,
                ConnectTimeout = 250 * Millisecond,
                LbPolicy = edslbstrategy (svc_LoadBalancerStrategy svc),
                CommonLbConfig = Ptr \<lparr>HealthyPanicThreshold = Ptr \<lparr>Value = 0\<rparr>\<rparr>,
                HealthChecks = edshealthcheck E (svc_HealthCheck svc),
                CircuitBreakers = Null,
                Http2ProtocolOptions = Null,
                TlsContext = Null\<rparr>;
          c = (if 0 < sint (svc_MaxConnections svc) \<or> 0 < sint (svc_MaxPendingRequests svc)
                  \<or> 0 < sint (svc_MaxRequests svc) \<or> 0 < sint (svc_MaxRetries svc)
               then c\<lparr>CircuitBreakers := Ptr \<lparr>Thresholds = [Ptr
                      \<lparr>MaxConnections = uint32OrNil E (svc_MaxConnections svc),
                       MaxPendingRequests = uint32OrNil E (svc_MaxPendingRequests svc),
                       MaxRequests = uint32OrNil E (svc_MaxRequests svc),
                       MaxRetries = uint32OrNil E (svc_MaxRetries svc)\<rparr>]\<rparr>\<rparr>
               else c)
      in if svc_Protocol svc = ''h2'' then
           c\<lparr>Http2ProtocolOptions := Ptr Http2ProtocolOptions_zero,
             TlsContext := Ptr \<lparr>CommonTlsContext = Ptr \<lparr>AlpnProtocols = [''h2'']\<rparr>\<rparr>\<rparr>
         else if svc_Protocol svc = ''h2c'' then
           c\<lparr>Http2ProtocolOptions := Ptr Http2ProtocolOptions_zero\<rparr>
         else c)"

definition edscluster :: "deps \<Rightarrow> Service \<Rightarrow> clusters \<Rightarrow> clusters" where
  "edscluster E svc m =
     (let name = Clustername E svc in
      if m name \<noteq> None then m
      else (let c = edscluster_build E name svc in m(Name c \<mapsto> Ptr c)))"

fun visit :: "deps \<Rightarrow> Vertex \<Rightarrow> clusters \<Rightarrow> clusters" where
  "visit E (ServiceVertex service children) m = fold (visit E) children (edscluster E service m)"
| "visit E (OtherVertex children) m = fold (visit E) children m"

text \<open>\<^verbatim>\<open>Visit\<close> starts from an empty map and visits the roots the graph presents.\<close>

definition Visit :: "deps \<Rightarrow> Vertex list \<Rightarrow> clusters" where
  "Visit E roots = fold (visit E) roots Map.empty"

text \<open>The services of a graph in the order the visitor meets them.\<close>

fun services :: "Vertex \<Rightarrow> Service list" where
  "services (ServiceVertex service children) = service # concat (map services children)"
| "services (OtherVertex children) = concat (map services children)"

text \<open>
  The names the graph is built from are names of Kubernetes namespaces, services and
  ports, and such names hold no slash.
\<close>

definition slash_free :: "string \<Rightarrow> bool" where
  "slash_free s = (CHR ''/'' \<notin> set s)"

definition slash_free_names :: "Service \<Rightarrow> bool" where
  "slash_free_names svc =
     (slash_free (svc_Namespace svc) \<and> slash_free (svc_Name svc)
      \<and> slash_free (svc_ServicePort_Name svc))"

section \<open>States used in the examples\<close>

text \<open>
  A heap in which every channel was made with capacity 1 and is empty, one in which every
  such channel already holds a value, and a cache with a given counter and waiters.
\<close>

definition fresh_chans :: heap where
  "fresh_chans = (\<lambda>a. \<lparr>dataqsiz = 1, buf = [], recvq = 0, taken = [], chan_closed = False\<rparr>)"

definition full_chans :: heap where
  "full_chans = (\<lambda>a. \<lparr>dataqsiz = 1, buf = [0], recvq = 0, taken = [], chan_closed = False\<rparr>)"

definition cache_at :: "go_int \<Rightarrow> chan list \<Rightarrow> clusterCache" where
  "cache_at n ws = \<lparr>values_map = Map.empty, waiters = ws, last_count = n\<rparr>"

text \<open>A cluster that has a name and nothing else.\<close>

definition cluster_named :: "string \<Rightarrow> Cluster" where
  "cluster_named n =
     \<lparr>Name = n, Type = Cluster_STATIC, EdsClusterConfig = Null, ConnectTimeout = 0,
      LbPolicy = Cluster_ROUND_ROBIN, CommonLbConfig = Null, HealthChecks = [],
      CircuitBreakers = Null, Http2ProtocolOptions = Null, TlsContext = Null\<rparr>"

text \<open>
  Stand-ins for the outside functions \<^verbatim>\<open>envoy.Clustername\<close> and \<^verbatim>\<open>envoy.HealthCheck\<close>,
  with the helper \<^verbatim>\<open>u32\<close> as modelled above, and a service with the given namespace,
  name, port name and protocol, no health check and no limits.
\<close>

definition example_deps :: deps where
  "example_deps =
     \<lparr>Clustername = (\<lambda>s. svc_Namespace s @ ''/'' @ svc_Name s),
      envoy_HealthCheck = (\<lambda>hc. Null),
      u32 = u32_helper\<rparr>"

definition example_service :: "string \<Rightarrow> string \<Rightarrow> string \<Rightarrow> string \<Rightarrow> Service" where
  "example_service ns n port proto =
     \<lparr>svc_Namespace = ns, svc_Name = n, svc_ServicePort_Name = port,
      svc_LoadBalancerStrategy = [], svc_HealthCheck = Null,
      svc_MaxConnections = 0, svc_MaxPendingRequests = 0, svc_MaxRequests = 0,
      svc_MaxRetries = 0, svc_Protocol = proto\<rparr>"

text \<open>
  A graph in which two edges lead to the service \<^verbatim>\<open>default/web\<close>, with different
  protocols, and the second of them has the service \<^verbatim>\<open>default/api\<close> below it.
\<close>

definition example_graph :: "Vertex list" where
  "example_graph =
     [OtherVertex
        [ServiceVertex (example_service ''default'' ''web'' ''http'' ''h2'') [],
         OtherVertex
           [ServiceVertex (example_service ''default'' ''web'' ''http'' ''h2c'')
              [ServiceVertex (example_service ''default'' ''api'' [] []) []]]]]"

section \<open>Channel sends\<close>

lemma chansend_room:
  assumes "0 < room h ch"
  shows "\<exists>h'. chansend ch v h = Sent h' \<and> room h' ch = room h ch - 1
           \<and> (\<forall>ch'. ch' \<noteq> ch \<longrightarrow> room h' ch' = room h ch')"
proof (cases ch)
  case Null
  with assms show ?thesis by simp
next
  case (Ptr a)
  have other: "room (h(a := x)) ch' = room h ch'" if "ch' \<noteq> Ptr a" for x ch'
    using that by (cases ch') auto
  from assms Ptr have open_a: "\<not> chan_closed (h a)"
    by (auto split: if_splits)
  show ?thesis
  proof (cases "0 < recvq (h a)")
    case True
    with Ptr open_a other show ?thesis by auto
  next
    case False
    with assms Ptr open_a have "length (buf (h a)) < dataqsiz (h a)" by simp
    with False Ptr open_a other show ?thesis by auto
  qed
qed

lemma chansend_Sent_room: "chansend ch v h = Sent h' \<Longrightarrow> 0 < room h ch"
  by (cases ch) (auto split: if_splits)

lemma notify_range_returns:
  "\<forall>ch \<in> set chs. count_list chs ch \<le> room h ch \<Longrightarrow>
   \<exists>h'. notify_range v chs h ds = Returns (h', ds @ map (\<lambda>ch. (ch, v)) chs)"
proof (induction chs arbitrary: h ds)
  case Nil
  then show ?case by simp
next
  case (Cons ch chs)
  from Cons.prems have "0 < room h ch" by fastforce
  from chansend_room [OF this, of v] obtain h1 where
    snd: "chansend ch v h = Sent h1" and r1: "room h1 ch = room h ch - 1"
    and r2: "\<And>ch'. ch' \<noteq> ch \<Longrightarrow> room h1 ch' = room h ch'" by blast
  have "\<forall>x \<in> set chs. count_list chs x \<le> room h1 x"
  proof
    fix x assume x: "x \<in> set chs"
    with Cons.prems have le: "count_list (ch # chs) x \<le> room h x" by simp
    show "count_list chs x \<le> room h1 x"
    proof (cases "x = ch")
      case True with le r1 show ?thesis by simp
    next
      case False with le r2 show ?thesis by simp
    qed
  qed
  from Cons.IH [OF this, of "ds @ [(ch, v)]"] snd show ?case by simp
qed

lemma notify_range_returns_room:
  "notify_range v chs h ds = Returns r \<Longrightarrow> \<forall>ch \<in> set chs. count_list chs ch \<le> room h ch"
proof (induction chs arbitrary: h ds)
  case Nil
  then show ?case by simp
next
  case (Cons ch chs)
  from Cons.prems obtain h1 where snd: "chansend ch v h = Sent h1"
    and rest: "notify_range v chs h1 (ds @ [(ch, v)]) = Returns r"
    by (auto split: send_result.splits)
  from chansend_Sent_room [OF snd] have pos: "0 < room h ch" .
  from chansend_room [OF pos, of v] snd have r1: "room h1 ch = room h ch - 1"
    and r2: "\<And>ch'. ch' \<noteq> ch \<Longrightarrow> room h1 ch' = room h ch'" by auto
  from Cons.IH [OF rest] have ih: "\<forall>x \<in> set chs. count_list chs x \<le> room h1 x" .
  show ?case
  proof
    fix x assume x: "x \<in> set (ch # chs)"
    show "count_list (ch # chs) x \<le> room h x"
    proof (cases "x = ch")
      case True
      show ?thesis
      proof (cases "ch \<in> set chs")
        case True
        with ih r1 pos \<open>x = ch\<close> show ?thesis by fastforce
      next
        case False
        with pos \<open>x = ch\<close> show ?thesis by (simp add: count_list_0_iff)
      qed
    next
      case False
      with x ih r2 show ?thesis by auto
    qed
  qed
qed

section \<open>Register and Update\<close>

lemma Register_stale:
  assumes "sint lst < sint (last_count c)" "0 < room h w"
  shows "\<exists>h'. Register c w lst h = Returns (c, h', [(w, last_count c)])"
proof -
  from chansend_room [OF assms(2), of "last_count c"] obtain h' where
    "chansend w (last_count c) h = Sent h'" by blast
  with assms(1) show ?thesis by (simp add: Register_def)
qed

lemma Register_not_stale:
  "\<not> sint lst < sint (last_count c) \<Longrightarrow>
   Register c w lst h = Returns (c\<lparr>waiters := waiters c @ [w]\<rparr>, h, [])"
  by (simp add: Register_def)

lemma Update_returns:
  assumes "\<forall>ch \<in> set (waiters c). count_list (waiters c) ch \<le> room h ch"
  shows "\<exists>h'. Update c S h =
           Returns (c\<lparr>values_map := S, last_count := last_count c + 1, waiters := []\<rparr>, h',
                    map (\<lambda>ch. (ch, last_count c + 1)) (waiters c))"
proof -
  from notify_range_returns [OF assms, of "last_count c + 1" "[]"] obtain h' where
    "notify_range (last_count c + 1) (waiters c) h [] =
       Returns (h', map (\<lambda>ch. (ch, last_count c + 1)) (waiters c))" by auto
  then show ?thesis by (simp add: Update_def notify_def Let_def)
qed

lemma Update_returns_iff:
  "returns (Update c S h) \<longleftrightarrow> (\<forall>ch \<in> set (waiters c). count_list (waiters c) ch \<le> room h ch)"
proof
  assume "returns (Update c S h)"
  then obtain r where "notify_range (last_count c + 1) (waiters c) h [] = Returns r"
    by (auto simp: Update_def notify_def Let_def split: outcome.splits prod.splits)
  from notify_range_returns_room [OF this]
  show "\<forall>ch \<in> set (waiters c). count_list (waiters c) ch \<le> room h ch" .
next
  assume "\<forall>ch \<in> set (waiters c). count_list (waiters c) ch \<le> room h ch"
  from Update_returns [OF this, of S] show "returns (Update c S h)" by auto
qed

lemma Register_returns_iff:
  "returns (Register c w lst h) \<longleftrightarrow> (sint lst < sint (last_count c) \<longrightarrow> 0 < room h w)"
proof (cases "sint lst < sint (last_count c)")
  case False
  then show ?thesis by (simp add: Register_def)
next
  case True
  show ?thesis
  proof (cases "0 < room h w")
    case True
    from Register_stale [OF \<open>sint lst < sint (last_count c)\<close> this] True show ?thesis by auto
  next
    case False
    have "chansend w (last_count c) h \<noteq> Sent h'" for h'
      using False by (auto dest: chansend_Sent_room)
    with True False show ?thesis
      by (auto simp: Register_def split: send_result.splits)
  qed
qed

lemma count_list_map_pair:
  "count_list (map (\<lambda>ch. (ch, v)) ws) (w, v) = count_list ws w"
  by (induction ws) auto

lemma count_list_map_fst_pair:
  "count_list (map fst (map (\<lambda>ch. (ch, v)) ws)) w = count_list ws w"
  by (simp add: comp_def)

lemma count_list_once: "w \<notin> set xs \<Longrightarrow> w \<notin> set ys \<Longrightarrow> count_list (xs @ [w] @ ys) w = 1"
  by (simp add: count_list_0_iff)

lemma Updates_no_waiters:
  "waiters c = [] \<Longrightarrow>
   Updates c h Ss = Returns (c\<lparr>values_map := (if Ss = [] then values_map c else last Ss),
                              last_count := last_count c + of_nat (length Ss)\<rparr>, h, [])"
proof (induction Ss arbitrary: c)
  case Nil
  then show ?case by simp
next
  case (Cons S Ss)
  let ?c1 = "c\<lparr>values_map := S, last_count := last_count c + 1, waiters := []\<rparr>"
  from Cons.prems have u: "Update c S h = Returns (?c1, h, [])"
    by (simp add: Update_def notify_def Let_def)
  have "waiters ?c1 = []" by simp
  from Cons.IH [OF this] u Cons.prems show ?case by (simp add: add.assoc add.commute)
qed

lemma sint_small: "n < 2 ^ 63 \<Longrightarrow> sint (of_nat n :: 64 word) = int n"
proof -
  assume n: "n < 2 ^ 63"
  have "(of_nat n :: 64 word) = word_of_int (int n)" by simp
  then have "sint (of_nat n :: 64 word) = signed_take_bit 63 (int n)"
    by (simp only: sint_sbintrunc') simp
  also have "\<dots> = int n"
  proof (rule signed_take_bit_int_eq_self)
    show "- (2 ^ 63) \<le> int n" by (rule order_trans [of _ 0]) simp_all
    from n have "int n < int (2 ^ 63)" by (simp only: of_nat_less_iff)
    then show "int n < 2 ^ 63" by simp
  qed
  finally show ?thesis .
qed

lemma sint_succ:
  fixes w :: "64 word"
  assumes "sint w < 2 ^ 63 - 1"
  shows "sint (w + 1) = sint w + 1"
proof -
  have lo: "- (2 ^ 63) \<le> sint w" using sint_ge [of w] by simp
  have "sint (w + 1) = signed_take_bit 63 (sint w + sint (1 :: 64 word))"
    using sint_word_ariths(1) [of w 1] by simp
  also have "\<dots> = signed_take_bit 63 (sint w + 1)" by simp
  also have "\<dots> = sint w + 1"
    by (rule signed_take_bit_int_eq_self) (use lo assms in simp_all)
  finally show ?thesis .
qed

lemma distinct_count_list_one: "distinct xs \<Longrightarrow> x \<in> set xs \<Longrightarrow> count_list xs x = 1"
  by (induction xs) auto

lemma Update_values_map: "values_map (cache_of (Update c S h)) = S"
  by (simp add: Update_def notify_def Let_def split: outcome.splits prod.splits)

lemma Update_last_count: "last_count (cache_of (Update c S h)) = last_count c + 1"
  by (simp add: Update_def notify_def Let_def split: outcome.splits prod.splits)

lemma Register_stale_state:
  "sint lst < sint (last_count c) \<Longrightarrow>
   cache_of (Register c w lst h) = c
   \<and> sent_of (Register c w lst h)
       = (if returns (Register c w lst h) then [(w, last_count c)] else [])"
  by (simp add: Register_def split: send_result.splits)

text \<open>
  The channels after a call: each send that completes reaches its channel, as \<open>arrive\<close>
  says, and leaves every other channel alone.
\<close>

lemma arrive_0: "arrive 0 v x = x"
  by (simp add: arrive_def)

lemma arrive_Suc: "arrive n v (arrive 1 v x) = arrive (Suc n) v x"
proof (cases "recvq x")
  case 0
  then show ?thesis
    by (simp add: arrive_def replicate_append_same)
next
  case (Suc r)
  then show ?thesis
    by (simp add: arrive_def replicate_append_same min_def)
qed

lemma chansend_Sent:
  "chansend ch v h = Sent h' \<Longrightarrow> \<exists>a. ch = Ptr a \<and> h' = h(a := arrive 1 v (h a))"
  by (cases ch) (auto simp: arrive_def split: if_splits)

lemma chansend_arrive:
  "0 < room h (Ptr a) \<Longrightarrow> chansend (Ptr a) v h = Sent (h(a := arrive 1 v (h a)))"
  by (auto simp: arrive_def split: if_splits)

lemma notify_range_state:
  "\<exists>k \<le> length chs.
     state_of (notify_range v chs h ds)
       = ((\<lambda>a. arrive (count_list (take k chs) (Ptr a)) v (h a)),
          ds @ map (\<lambda>ch. (ch, v)) (take k chs))
     \<and> (returns (notify_range v chs h ds) \<longleftrightarrow> k = length chs)"
proof (induction chs arbitrary: h ds)
  case Nil
  then show ?case by (simp add: arrive_0)
next
  case (Cons ch chs)
  show ?case
  proof (cases "chansend ch v h")
    case (Sent h')
    from chansend_Sent [OF Sent] obtain a where a: "ch = Ptr a" "h' = h(a := arrive 1 v (h a))"
      by blast
    from Cons.IH [of h' "ds @ [(ch, v)]"] obtain k where
      k: "k \<le> length chs"
        "state_of (notify_range v chs h' (ds @ [(ch, v)]))
           = ((\<lambda>b. arrive (count_list (take k chs) (Ptr b)) v (h' b)),
              (ds @ [(ch, v)]) @ map (\<lambda>ch. (ch, v)) (take k chs))"
        "returns (notify_range v chs h' (ds @ [(ch, v)])) \<longleftrightarrow> k = length chs"
      by blast
    have "(\<lambda>b. arrive (count_list (take k chs) (Ptr b)) v (h' b))
            = (\<lambda>b. arrive (count_list (take (Suc k) (ch # chs)) (Ptr b)) v (h b))"
    proof
      fix b
      show "arrive (count_list (take k chs) (Ptr b)) v (h' b)
              = arrive (count_list (take (Suc k) (ch # chs)) (Ptr b)) v (h b)"
        using a arrive_Suc [of "count_list (take k chs) (Ptr b)" v "h b"] by simp
    qed
    with Sent k show ?thesis by (intro exI [of _ "Suc k"]) simp
  next
    case Parked
    then show ?thesis by (intro exI [of _ 0]) (simp add: arrive_0)
  next
    case SendOnClosed
    then show ?thesis by (intro exI [of _ 0]) (simp add: arrive_0)
  qed
qed

lemma Update_state:
  "\<exists>k \<le> length (waiters c).
     sent_of (Update c S h) = map (\<lambda>ch. (ch, last_count c + 1)) (take k (waiters c))
     \<and> heap_of (Update c S h)
         = (\<lambda>a. arrive (count_list (take k (waiters c)) (Ptr a)) (last_count c + 1) (h a))
     \<and> (returns (Update c S h) \<longleftrightarrow> k = length (waiters c))"
proof -
  let ?n = "notify_range (last_count c + 1) (waiters c) h []"
  from notify_range_state [of "waiters c" "last_count c + 1" h "[]"] obtain k where
    k: "k \<le> length (waiters c)"
      "state_of ?n
         = ((\<lambda>a. arrive (count_list (take k (waiters c)) (Ptr a)) (last_count c + 1) (h a)),
            map (\<lambda>ch. (ch, last_count c + 1)) (take k (waiters c)))"
      "returns ?n \<longleftrightarrow> k = length (waiters c)"
    by auto
  have "snd (state_of (Update c S h)) = state_of ?n"
    by (simp add: Update_def notify_def Let_def split: outcome.splits prod.splits)
  moreover have "returns (Update c S h) \<longleftrightarrow> returns ?n"
    by (simp add: Update_def notify_def Let_def split: outcome.splits prod.splits)
  ultimately show ?thesis using k by (intro exI [of _ k]) simp
qed

lemma Update_returns_exact:
  assumes "\<forall>ch \<in> set (waiters c). count_list (waiters c) ch \<le> room h ch"
  shows "Update c S h =
           Returns (c\<lparr>values_map := S, last_count := last_count c + 1, waiters := []\<rparr>,
                    (\<lambda>a. arrive (count_list (waiters c) (Ptr a)) (last_count c + 1) (h a)),
                    map (\<lambda>ch. (ch, last_count c + 1)) (waiters c))"
proof -
  from Update_returns [OF assms, of S] obtain h' where
    u: "Update c S h =
           Returns (c\<lparr>values_map := S, last_count := last_count c + 1, waiters := []\<rparr>, h',
                    map (\<lambda>ch. (ch, last_count c + 1)) (waiters c))" by blast
  from Update_state [of c S h] obtain k where
    k: "heap_of (Update c S h)
         = (\<lambda>a. arrive (count_list (take k (waiters c)) (Ptr a)) (last_count c + 1) (h a))"
      "returns (Update c S h) \<longleftrightarrow> k = length (waiters c)"
    by blast
  from u k(2) have "k = length (waiters c)" by simp
  with k(1) u show ?thesis by simp
qed

lemma Register_stale_exact:
  assumes "sint lst < sint (last_count c)" "0 < room h w"
  shows "Register c w lst h =
           Returns (c, h(deref w := arrive 1 (last_count c) (h (deref w))), [(w, last_count c)])"
proof -
  from assms(2) obtain a where a: "w = Ptr a" by (cases w) auto
  with assms(2) have "chansend w (last_count c) h = Sent (h(a := arrive 1 (last_count c) (h a)))"
    by (simp only: chansend_arrive)
  with assms(1) a show ?thesis by (simp add: Register_def)
qed

lemma Register_stale_heap:
  "sint lst < sint (last_count c) \<Longrightarrow>
   heap_of (Register c w lst h)
     = (if returns (Register c w lst h)
        then h(deref w := arrive 1 (last_count c) (h (deref w))) else h)"
proof (cases "0 < room h w")
  case True
  assume "sint lst < sint (last_count c)"
  from Register_stale_exact [OF this True] show ?thesis by simp
next
  case False
  assume st: "sint lst < sint (last_count c)"
  with False have "\<not> returns (Register c w lst h)" by (simp add: Register_returns_iff)
  moreover have "heap_of (Register c w lst h) = h"
    using st False by (auto simp: Register_def dest: chansend_Sent_room split: send_result.splits)
  ultimately show ?thesis by simp
qed

lemma arrive_1_buf: "recvq x = 0 \<Longrightarrow> buf (arrive 1 v x) = buf x @ [v] \<and> taken (arrive 1 v x) = taken x"
  by (simp add: arrive_def)

lemma arrive_1_taken: "0 < recvq x \<Longrightarrow> taken (arrive 1 v x) = taken x @ [v] \<and> buf (arrive 1 v x) = buf x"
  by (simp add: arrive_def)

lemma Update_pending_once_exact:
  assumes "w \<notin> set ws" "w \<notin> set ws'"
    and r: "\<forall>ch \<in> set (ws @ [w] @ ws'). count_list (ws @ [w] @ ws') ch \<le> room h ch"
    and wc: "waiters c = ws @ [w] @ ws'"
  shows "Update c S h =
           Returns (c\<lparr>values_map := S, last_count := last_count c + 1, waiters := []\<rparr>,
                    (\<lambda>a. arrive (count_list (ws @ [w] @ ws') (Ptr a)) (last_count c + 1) (h a)),
                    map (\<lambda>ch. (ch, last_count c + 1)) (ws @ [w] @ ws'))"
    and "heap_of (Update c S h) (deref w) = arrive 1 (last_count c + 1) (h (deref w))"
    and "count_list (map fst (sent_of (Update c S h))) w = 1"
    and "count_list (sent_of (Update c S h)) (w, last_count c + 1) = 1"
proof -
  from r wc have "\<forall>ch \<in> set (waiters c). count_list (waiters c) ch \<le> room h ch" by simp
  from Update_returns_exact [OF this, of S] wc
  show u: "Update c S h =
           Returns (c\<lparr>values_map := S, last_count := last_count c + 1, waiters := []\<rparr>,
                    (\<lambda>a. arrive (count_list (ws @ [w] @ ws') (Ptr a)) (last_count c + 1) (h a)),
                    map (\<lambda>ch. (ch, last_count c + 1)) (ws @ [w] @ ws'))"
    by simp
  have one: "count_list (ws @ [w] @ ws') w = 1"
    using assms(1,2) by (rule count_list_once)
  from r one have "0 < room h w" by fastforce
  then obtain a where a: "w = Ptr a" by (cases w) auto
  from u a one show "heap_of (Update c S h) (deref w) = arrive 1 (last_count c + 1) (h (deref w))"
    by simp
  from u one show "count_list (map fst (sent_of (Update c S h))) w = 1"
    by (simp add: count_list_map_fst_pair del: map_map map_append)
  from u one show "count_list (sent_of (Update c S h)) (w, last_count c + 1) = 1"
    by (simp add: count_list_map_pair del: map_append)
qed

section \<open>Registering a waiter\<close>

text \<open>
  C1: \<^verbatim>\<open>Register(w, last)\<close> with \<open>last\<close> below the counter leaves the cache as it was,
  so \<open>w\<close> does not become a waiter. It returns exactly when \<open>w\<close> can take a send
  (\<open>0 < room h w\<close>, which a channel of capacity 1 or more that holds nothing satisfies).
  When it returns, it has made one send, of the counter to \<open>w\<close>, and the counter has
  reached the channel of \<open>w\<close>: it is the newest value in its buffer, or the newest value
  taken by a receiver that was parked on it, and no other channel has changed. When it does
  not return it has sent nothing and no channel has changed. With \<open>last\<close> equal to the
  counter it sends nothing, leaves the channels alone and appends \<open>w\<close> to the waiters. At
  the next \<^verbatim>\<open>Update\<close>, whatever was registered after \<open>w\<close> (\<open>ws\<close>) and whatever the
  channels hold by then (\<open>h2\<close>), the new counter reaches the channel of \<open>w\<close> exactly once,
  provided \<open>w\<close> was registered this one time and every pending channel has room for the
  sends due to it, which is exactly when that \<^verbatim>\<open>Update\<close> returns.
\<close>

theorem Register_stale_or_current:
  "(sint lst < sint (last_count c) \<longrightarrow>
      cache_of (Register c w lst h) = c
      \<and> sent_of (Register c w lst h)
          = (if returns (Register c w lst h) then [(w, last_count c)] else [])
      \<and> heap_of (Register c w lst h)
          = (if returns (Register c w lst h)
             then h(deref w := arrive 1 (last_count c) (h (deref w))) else h)
      \<and> (returns (Register c w lst h) \<longleftrightarrow> 0 < room h w))
   \<and> (sint lst < sint (last_count c) \<and> 0 < room h w \<longrightarrow>
      Register c w lst h
        = Returns (c, h(deref w := arrive 1 (last_count c) (h (deref w))), [(w, last_count c)])
      \<and> (recvq (h (deref w)) = 0 \<longrightarrow>
           buf (heap_of (Register c w lst h) (deref w)) = buf (h (deref w)) @ [last_count c])
      \<and> (0 < recvq (h (deref w)) \<longrightarrow>
           taken (heap_of (Register c w lst h) (deref w)) = taken (h (deref w)) @ [last_count c]))
   \<and> (lst = last_count c \<longrightarrow>
      Register c w lst h = Returns (c\<lparr>waiters := waiters c @ [w]\<rparr>, h, [])
      \<and> (returns (Update (c\<lparr>waiters := waiters c @ [w] @ ws\<rparr>) S h2) \<longleftrightarrow>
           (\<forall>ch \<in> set (waiters c @ [w] @ ws). count_list (waiters c @ [w] @ ws) ch \<le> room h2 ch))
      \<and> (w \<notin> set (waiters c) \<and> w \<notin> set ws
           \<and> (\<forall>ch \<in> set (waiters c @ [w] @ ws). count_list (waiters c @ [w] @ ws) ch \<le> room h2 ch) \<longrightarrow>
          Update (c\<lparr>waiters := waiters c @ [w] @ ws\<rparr>) S h2
            = Returns (c\<lparr>values_map := S, last_count := last_count c + 1, waiters := []\<rparr>,
                       (\<lambda>a. arrive (count_list (waiters c @ [w] @ ws) (Ptr a)) (last_count c + 1) (h2 a)),
                       map (\<lambda>ch. (ch, last_count c + 1)) (waiters c @ [w] @ ws))
          \<and> heap_of (Update (c\<lparr>waiters := waiters c @ [w] @ ws\<rparr>) S h2) (deref w)
              = arrive 1 (last_count c + 1) (h2 (deref w))
          \<and> (recvq (h2 (deref w)) = 0 \<longrightarrow>
               buf (heap_of (Update (c\<lparr>waiters := waiters c @ [w] @ ws\<rparr>) S h2) (deref w))
                 = buf (h2 (deref w)) @ [last_count c + 1])
          \<and> (0 < recvq (h2 (deref w)) \<longrightarrow>
               taken (heap_of (Update (c\<lparr>waiters := waiters c @ [w] @ ws\<rparr>) S h2) (deref w))
                 = taken (h2 (deref w)) @ [last_count c + 1])
          \<and> count_list (map fst (sent_of (Update (c\<lparr>waiters := waiters c @ [w] @ ws\<rparr>) S h2))) w = 1
          \<and> count_list (sent_of (Update (c\<lparr>waiters := waiters c @ [w] @ ws\<rparr>) S h2))
               (w, last_count c + 1) = 1))"
proof (intro conjI impI)
  assume st: "sint lst < sint (last_count c)"
  from Register_stale_state [OF st]
  show "cache_of (Register c w lst h) = c"
    and "sent_of (Register c w lst h)
          = (if returns (Register c w lst h) then [(w, last_count c)] else [])"
    by simp_all
  from st show "heap_of (Register c w lst h)
          = (if returns (Register c w lst h)
             then h(deref w := arrive 1 (last_count c) (h (deref w))) else h)"
    by (rule Register_stale_heap)
  from st show "returns (Register c w lst h) \<longleftrightarrow> 0 < room h w"
    by (simp add: Register_returns_iff)
next
  assume a: "sint lst < sint (last_count c) \<and> 0 < room h w"
  then have e: "Register c w lst h
        = Returns (c, h(deref w := arrive 1 (last_count c) (h (deref w))), [(w, last_count c)])"
    by (simp add: Register_stale_exact)
  then show "Register c w lst h
        = Returns (c, h(deref w := arrive 1 (last_count c) (h (deref w))), [(w, last_count c)])" .
  show "buf (heap_of (Register c w lst h) (deref w)) = buf (h (deref w)) @ [last_count c]"
    if "recvq (h (deref w)) = 0"
    using that by (simp add: e arrive_def)
  show "taken (heap_of (Register c w lst h) (deref w)) = taken (h (deref w)) @ [last_count c]"
    if "0 < recvq (h (deref w))"
    using that by (simp add: e arrive_def)
next
  assume "lst = last_count c"
  then show "Register c w lst h = Returns (c\<lparr>waiters := waiters c @ [w]\<rparr>, h, [])"
    by (simp add: Register_not_stale)
next
  show "returns (Update (c\<lparr>waiters := waiters c @ [w] @ ws\<rparr>) S h2) \<longleftrightarrow>
           (\<forall>ch \<in> set (waiters c @ [w] @ ws). count_list (waiters c @ [w] @ ws) ch \<le> room h2 ch)"
    by (simp add: Update_returns_iff)
next
  let ?c = "c\<lparr>waiters := waiters c @ [w] @ ws\<rparr>"
  assume a: "w \<notin> set (waiters c) \<and> w \<notin> set ws
           \<and> (\<forall>ch \<in> set (waiters c @ [w] @ ws). count_list (waiters c @ [w] @ ws) ch \<le> room h2 ch)"
  then have a1: "w \<notin> set (waiters c)" and a2: "w \<notin> set ws"
    and a3: "\<forall>ch \<in> set (waiters c @ [w] @ ws). count_list (waiters c @ [w] @ ws) ch \<le> room h2 ch"
    by blast+
  have wc: "waiters ?c = waiters c @ [w] @ ws" by simp
  note p = Update_pending_once_exact [OF a1 a2 a3 wc, of S]
  from p(1) show "Update ?c S h2
            = Returns (c\<lparr>values_map := S, last_count := last_count c + 1, waiters := []\<rparr>,
                       (\<lambda>a. arrive (count_list (waiters c @ [w] @ ws) (Ptr a)) (last_count c + 1) (h2 a)),
                       map (\<lambda>ch. (ch, last_count c + 1)) (waiters c @ [w] @ ws))"
    by simp
  from p(2) show hw: "heap_of (Update ?c S h2) (deref w) = arrive 1 (last_count c + 1) (h2 (deref w))"
    by simp
  show "buf (heap_of (Update ?c S h2) (deref w)) = buf (h2 (deref w)) @ [last_count c + 1]"
    if "recvq (h2 (deref w)) = 0"
    using that by (simp only: hw arrive_1_buf)
  show "taken (heap_of (Update ?c S h2) (deref w)) = taken (h2 (deref w)) @ [last_count c + 1]"
    if "0 < recvq (h2 (deref w))"
    using that by (simp only: hw arrive_1_taken)
  from p(3) show "count_list (map fst (sent_of (Update ?c S h2))) w = 1" by simp
  from p(4) show "count_list (sent_of (Update ?c S h2)) (w, last_count c + 1) = 1" by simp
qed

theorem Register_stale_or_current_witness:
  "Register (cache_at 1 []) (Ptr 0) 0 fresh_chans
     = Returns (cache_at 1 [],
                fresh_chans(0 := \<lparr>dataqsiz = 1, buf = [1], recvq = 0, taken = [], chan_closed = False\<rparr>),
                [(Ptr 0, 1)])
   \<and> buf (heap_of (Register (cache_at 1 []) (Ptr 0) 0 fresh_chans) 0) = [1]
   \<and> Register (cache_at 1 [Ptr 1]) (Ptr 0) 1 fresh_chans = Returns (cache_at 1 [Ptr 1, Ptr 0], fresh_chans, [])
   \<and> sent_of (Update (cache_at 1 [Ptr 1, Ptr 0, Ptr 2]) Map.empty fresh_chans)
       = [(Ptr 1, 2), (Ptr 0, 2), (Ptr 2, 2)]
   \<and> buf (heap_of (Update (cache_at 1 [Ptr 1, Ptr 0, Ptr 2]) Map.empty fresh_chans) 0) = [2]
   \<and> waiters (cache_of (Update (cache_at 1 [Ptr 1, Ptr 0, Ptr 2]) Map.empty fresh_chans)) = []"
proof -
  have a: "sint (0 :: go_int) < sint (last_count (cache_at 1 [])) \<and> 0 < room fresh_chans (Ptr 0)"
    by (simp add: cache_at_def fresh_chans_def)
  have b: "(1 :: go_int) = last_count (cache_at 1 [Ptr 1])"
    by (simp add: cache_at_def)
  have c: "Ptr 0 \<notin> set (waiters (cache_at 1 [Ptr 1])) \<and> (Ptr 0 :: chan) \<notin> set [Ptr 2]
      \<and> (\<forall>ch \<in> set (waiters (cache_at 1 [Ptr 1]) @ [Ptr 0] @ [Ptr 2]).
            count_list (waiters (cache_at 1 [Ptr 1]) @ [Ptr 0] @ [Ptr 2]) ch \<le> room fresh_chans ch)"
    by (simp add: cache_at_def fresh_chans_def)
  have r0: "recvq (fresh_chans (deref (Ptr 0 :: chan))) = 0"
    by (simp add: fresh_chans_def)
  have u: "(cache_at 1 [Ptr 1])\<lparr>waiters := waiters (cache_at 1 [Ptr 1]) @ [Ptr 0] @ [Ptr 2]\<rparr>
             = cache_at 1 [Ptr 1, Ptr 0, Ptr 2]"
    by (simp add: cache_at_def)
  note t1 = Register_stale_or_current [where lst = 0 and c = "cache_at 1 []" and h = fresh_chans and w = "Ptr 0"]
  note t2 = Register_stale_or_current [where lst = 1 and c = "cache_at 1 [Ptr 1]" and h = fresh_chans
      and w = "Ptr 0" and ws = "[Ptr 2]" and ?h2.0 = fresh_chans and S = Map.empty]
  from t1 a have e1: "Register (cache_at 1 []) (Ptr 0) 0 fresh_chans
        = Returns (cache_at 1 [],
            fresh_chans(deref (Ptr 0 :: chan) := arrive 1 (last_count (cache_at 1 [])) (fresh_chans (deref (Ptr 0 :: chan)))),
            [(Ptr 0, last_count (cache_at 1 []))])"
    by blast
  have 1: "Register (cache_at 1 []) (Ptr 0) 0 fresh_chans
     = Returns (cache_at 1 [],
                fresh_chans(0 := \<lparr>dataqsiz = 1, buf = [1], recvq = 0, taken = [], chan_closed = False\<rparr>),
                [(Ptr 0, 1)])"
    unfolding e1 by (simp add: cache_at_def arrive_def fresh_chans_def)
  from t1 a r0 have "buf (heap_of (Register (cache_at 1 []) (Ptr 0) 0 fresh_chans) (deref (Ptr 0 :: chan)))
        = buf (fresh_chans (deref (Ptr 0 :: chan))) @ [last_count (cache_at 1 [])]"
    by blast
  then have 2: "buf (heap_of (Register (cache_at 1 []) (Ptr 0) 0 fresh_chans) 0) = [1]"
    by (simp add: fresh_chans_def cache_at_def)
  from t2 b have 3: "Register (cache_at 1 [Ptr 1]) (Ptr 0) 1 fresh_chans
        = Returns (cache_at 1 [Ptr 1, Ptr 0], fresh_chans, [])"
    by (simp add: cache_at_def)
  from t2 b c have e2: "Update (cache_at 1 [Ptr 1, Ptr 0, Ptr 2]) Map.empty fresh_chans
        = Returns ((cache_at 1 [Ptr 1])\<lparr>values_map := Map.empty,
                      last_count := last_count (cache_at 1 [Ptr 1]) + 1, waiters := []\<rparr>,
                   (\<lambda>a. arrive (count_list (waiters (cache_at 1 [Ptr 1]) @ [Ptr 0] @ [Ptr 2]) (Ptr a))
                           (last_count (cache_at 1 [Ptr 1]) + 1) (fresh_chans a)),
                   map (\<lambda>ch. (ch, last_count (cache_at 1 [Ptr 1]) + 1))
                     (waiters (cache_at 1 [Ptr 1]) @ [Ptr 0] @ [Ptr 2]))"
    unfolding u by blast
  have 4: "sent_of (Update (cache_at 1 [Ptr 1, Ptr 0, Ptr 2]) Map.empty fresh_chans)
       = [(Ptr 1, 2), (Ptr 0, 2), (Ptr 2, 2)]"
    unfolding e2 by (simp add: cache_at_def)
  have 5: "buf (heap_of (Update (cache_at 1 [Ptr 1, Ptr 0, Ptr 2]) Map.empty fresh_chans) 0) = [2]"
    unfolding e2 by (simp add: cache_at_def arrive_def fresh_chans_def)
  have 6: "waiters (cache_of (Update (cache_at 1 [Ptr 1, Ptr 0, Ptr 2]) Map.empty fresh_chans)) = []"
    unfolding e2 by simp
  from 1 2 3 4 5 6 show ?thesis by blast
qed

text \<open>
  C10: \<^verbatim>\<open>Register(w, last)\<close> with \<open>last\<close> above the counter sends nothing, leaves the
  channels alone and appends \<open>w\<close> to the waiters, exactly as it does when \<open>last\<close> equals
  the counter; the new counter reaches the channel of \<open>w\<close> once at the next \<^verbatim>\<open>Update\<close>,
  under the same provisos as for an equal \<open>last\<close>.
\<close>

theorem Register_ahead_waits:
  "sint (last_count c) < sint lst \<longrightarrow>
      Register c w lst h = Returns (c\<lparr>waiters := waiters c @ [w]\<rparr>, h, [])
      \<and> Register c w lst h = Register c w (last_count c) h
      \<and> (returns (Update (c\<lparr>waiters := waiters c @ [w] @ ws\<rparr>) S h2) \<longleftrightarrow>
           (\<forall>ch \<in> set (waiters c @ [w] @ ws). count_list (waiters c @ [w] @ ws) ch \<le> room h2 ch))
      \<and> (w \<notin> set (waiters c) \<and> w \<notin> set ws
           \<and> (\<forall>ch \<in> set (waiters c @ [w] @ ws). count_list (waiters c @ [w] @ ws) ch \<le> room h2 ch) \<longrightarrow>
          Update (c\<lparr>waiters := waiters c @ [w] @ ws\<rparr>) S h2
            = Returns (c\<lparr>values_map := S, last_count := last_count c + 1, waiters := []\<rparr>,
                       (\<lambda>a. arrive (count_list (waiters c @ [w] @ ws) (Ptr a)) (last_count c + 1) (h2 a)),
                       map (\<lambda>ch. (ch, last_count c + 1)) (waiters c @ [w] @ ws))
          \<and> heap_of (Update (c\<lparr>waiters := waiters c @ [w] @ ws\<rparr>) S h2) (deref w)
              = arrive 1 (last_count c + 1) (h2 (deref w))
          \<and> (recvq (h2 (deref w)) = 0 \<longrightarrow>
               buf (heap_of (Update (c\<lparr>waiters := waiters c @ [w] @ ws\<rparr>) S h2) (deref w))
                 = buf (h2 (deref w)) @ [last_count c + 1])
          \<and> (0 < recvq (h2 (deref w)) \<longrightarrow>
               taken (heap_of (Update (c\<lparr>waiters := waiters c @ [w] @ ws\<rparr>) S h2) (deref w))
                 = taken (h2 (deref w)) @ [last_count c + 1])
          \<and> count_list (map fst (sent_of (Update (c\<lparr>waiters := waiters c @ [w] @ ws\<rparr>) S h2))) w = 1
          \<and> count_list (sent_of (Update (c\<lparr>waiters := waiters c @ [w] @ ws\<rparr>) S h2))
               (w, last_count c + 1) = 1)"
proof (intro conjI impI)
  assume "sint (last_count c) < sint lst"
  then show "Register c w lst h = Returns (c\<lparr>waiters := waiters c @ [w]\<rparr>, h, [])"
    by (simp add: Register_not_stale)
  then show "Register c w lst h = Register c w (last_count c) h"
    by (simp add: Register_not_stale)
next
  show "returns (Update (c\<lparr>waiters := waiters c @ [w] @ ws\<rparr>) S h2) \<longleftrightarrow>
           (\<forall>ch \<in> set (waiters c @ [w] @ ws). count_list (waiters c @ [w] @ ws) ch \<le> room h2 ch)"
    by (simp add: Update_returns_iff)
next
  let ?c = "c\<lparr>waiters := waiters c @ [w] @ ws\<rparr>"
  assume a: "w \<notin> set (waiters c) \<and> w \<notin> set ws
           \<and> (\<forall>ch \<in> set (waiters c @ [w] @ ws). count_list (waiters c @ [w] @ ws) ch \<le> room h2 ch)"
  then have a1: "w \<notin> set (waiters c)" and a2: "w \<notin> set ws"
    and a3: "\<forall>ch \<in> set (waiters c @ [w] @ ws). count_list (waiters c @ [w] @ ws) ch \<le> room h2 ch"
    by blast+
  have wc: "waiters ?c = waiters c @ [w] @ ws" by simp
  note p = Update_pending_once_exact [OF a1 a2 a3 wc, of S]
  from p(1) show "Update ?c S h2
            = Returns (c\<lparr>values_map := S, last_count := last_count c + 1, waiters := []\<rparr>,
                       (\<lambda>a. arrive (count_list (waiters c @ [w] @ ws) (Ptr a)) (last_count c + 1) (h2 a)),
                       map (\<lambda>ch. (ch, last_count c + 1)) (waiters c @ [w] @ ws))"
    by simp
  from p(2) show hw: "heap_of (Update ?c S h2) (deref w) = arrive 1 (last_count c + 1) (h2 (deref w))"
    by simp
  show "buf (heap_of (Update ?c S h2) (deref w)) = buf (h2 (deref w)) @ [last_count c + 1]"
    if "recvq (h2 (deref w)) = 0"
    using that by (simp only: hw arrive_1_buf)
  show "taken (heap_of (Update ?c S h2) (deref w)) = taken (h2 (deref w)) @ [last_count c + 1]"
    if "0 < recvq (h2 (deref w))"
    using that by (simp only: hw arrive_1_taken)
  from p(3) show "count_list (map fst (sent_of (Update ?c S h2))) w = 1" by simp
  from p(4) show "count_list (sent_of (Update ?c S h2)) (w, last_count c + 1) = 1" by simp
qed

theorem Register_ahead_waits_witness:
  "sint (last_count (cache_at 1 [Ptr 1])) < sint (5 :: go_int)
   \<and> Register (cache_at 1 [Ptr 1]) (Ptr 0) 5 fresh_chans = Returns (cache_at 1 [Ptr 1, Ptr 0], fresh_chans, [])
   \<and> sent_of (Update (cache_at 1 [Ptr 1, Ptr 0]) Map.empty fresh_chans) = [(Ptr 1, 2), (Ptr 0, 2)]
   \<and> buf (heap_of (Update (cache_at 1 [Ptr 1, Ptr 0]) Map.empty fresh_chans) 0) = [2]
   \<and> waiters (cache_of (Update (cache_at 1 [Ptr 1, Ptr 0]) Map.empty fresh_chans)) = []"
proof -
  have a: "sint (last_count (cache_at 1 [Ptr 1])) < sint (5 :: go_int)"
    by (simp add: cache_at_def)
  have c: "Ptr 0 \<notin> set (waiters (cache_at 1 [Ptr 1])) \<and> (Ptr 0 :: chan) \<notin> set []
      \<and> (\<forall>ch \<in> set (waiters (cache_at 1 [Ptr 1]) @ [Ptr 0] @ []).
            count_list (waiters (cache_at 1 [Ptr 1]) @ [Ptr 0] @ []) ch \<le> room fresh_chans ch)"
    by (simp add: cache_at_def fresh_chans_def)
  have u: "(cache_at 1 [Ptr 1])\<lparr>waiters := waiters (cache_at 1 [Ptr 1]) @ [Ptr 0] @ []\<rparr>
             = cache_at 1 [Ptr 1, Ptr 0]"
    by (simp add: cache_at_def)
  note t = Register_ahead_waits [where c = "cache_at 1 [Ptr 1]" and lst = 5 and w = "Ptr 0"
      and h = fresh_chans and ws = "[]" and ?h2.0 = fresh_chans and S = Map.empty]
  from t a have 1: "Register (cache_at 1 [Ptr 1]) (Ptr 0) 5 fresh_chans
        = Returns (cache_at 1 [Ptr 1, Ptr 0], fresh_chans, [])"
    by (simp add: cache_at_def)
  from t a c have e: "Update (cache_at 1 [Ptr 1, Ptr 0]) Map.empty fresh_chans
        = Returns ((cache_at 1 [Ptr 1])\<lparr>values_map := Map.empty,
                      last_count := last_count (cache_at 1 [Ptr 1]) + 1, waiters := []\<rparr>,
                   (\<lambda>a. arrive (count_list (waiters (cache_at 1 [Ptr 1]) @ [Ptr 0] @ []) (Ptr a))
                           (last_count (cache_at 1 [Ptr 1]) + 1) (fresh_chans a)),
                   map (\<lambda>ch. (ch, last_count (cache_at 1 [Ptr 1]) + 1))
                     (waiters (cache_at 1 [Ptr 1]) @ [Ptr 0] @ []))"
    unfolding u by blast
  have 2: "sent_of (Update (cache_at 1 [Ptr 1, Ptr 0]) Map.empty fresh_chans) = [(Ptr 1, 2), (Ptr 0, 2)]"
    unfolding e by (simp add: cache_at_def)
  have 3: "buf (heap_of (Update (cache_at 1 [Ptr 1, Ptr 0]) Map.empty fresh_chans) 0) = [2]"
    unfolding e by (simp add: cache_at_def arrive_def fresh_chans_def)
  have 4: "waiters (cache_of (Update (cache_at 1 [Ptr 1, Ptr 0]) Map.empty fresh_chans)) = []"
    unfolding e by simp
  from a 1 2 3 4 show ?thesis by blast
qed

section \<open>Updating the cache\<close>

text \<open>
  C2: in every outcome, what \<^verbatim>\<open>Update(S)\<close> has sent is the new counter, once to each of
  the first \<open>k\<close> pending entries in the order of registration and to nobody else; each of
  these sends has reached its channel and no other channel has changed; and it returns
  exactly when \<open>k\<close> is all of them, with no waiter pending any more. When every pending
  channel has room for the sends due to it, \<^verbatim>\<open>Update(S)\<close> returns, the new counter has
  reached the channel of each pending entry once, and no waiter is pending afterwards. A
  channel receives as many sends as it has pending entries: exactly one when no channel is
  pending twice, and then the new counter is the newest value in its buffer or the newest
  value taken by a receiver parked on it. The \<^verbatim>\<open>Update\<close> after that sends nothing, so a
  waiter that has been served is not served again.
\<close>

theorem Update_delivers_once:
  "(\<exists>k \<le> length (waiters c).
      sent_of (Update c S h) = map (\<lambda>ch. (ch, last_count c + 1)) (take k (waiters c))
      \<and> heap_of (Update c S h)
          = (\<lambda>a. arrive (count_list (take k (waiters c)) (Ptr a)) (last_count c + 1) (h a))
      \<and> (returns (Update c S h) \<longleftrightarrow> k = length (waiters c)))
   \<and> (returns (Update c S h) \<longrightarrow> waiters (cache_of (Update c S h)) = [])
   \<and> ((\<forall>ch \<in> set (waiters c). count_list (waiters c) ch \<le> room h ch) \<longrightarrow>
       (\<exists>c' h' ds. Update c S h = Returns (c', h', ds)
           \<and> c' = c\<lparr>values_map := S, last_count := last_count c + 1, waiters := []\<rparr>
           \<and> waiters c' = []
           \<and> ds = map (\<lambda>ch. (ch, last_count c + 1)) (waiters c)
           \<and> h' = (\<lambda>a. arrive (count_list (waiters c) (Ptr a)) (last_count c + 1) (h a))
           \<and> (\<forall>a. Ptr a \<notin> set (waiters c) \<longrightarrow> h' a = h a)
           \<and> (\<forall>ch. count_list (map fst ds) ch = count_list (waiters c) ch)
           \<and> (distinct (waiters c) \<longrightarrow>
                (\<forall>ch \<in> set (waiters c). count_list (map fst ds) ch = 1
                    \<and> h' (deref ch) = arrive 1 (last_count c + 1) (h (deref ch))
                    \<and> (recvq (h (deref ch)) = 0 \<longrightarrow>
                         buf (h' (deref ch)) = buf (h (deref ch)) @ [last_count c + 1])
                    \<and> (0 < recvq (h (deref ch)) \<longrightarrow>
                         taken (h' (deref ch)) = taken (h (deref ch)) @ [last_count c + 1])))
           \<and> Update c' S' h' = Returns (c'\<lparr>values_map := S', last_count := last_count c' + 1\<rparr>, h', [])))"
proof (intro conjI impI)
  show "\<exists>k \<le> length (waiters c).
      sent_of (Update c S h) = map (\<lambda>ch. (ch, last_count c + 1)) (take k (waiters c))
      \<and> heap_of (Update c S h)
          = (\<lambda>a. arrive (count_list (take k (waiters c)) (Ptr a)) (last_count c + 1) (h a))
      \<and> (returns (Update c S h) \<longleftrightarrow> k = length (waiters c))"
    by (rule Update_state)
next
  assume "returns (Update c S h)"
  then show "waiters (cache_of (Update c S h)) = []"
    by (auto simp: Update_def notify_def Let_def split: outcome.splits prod.splits)
next
  assume r: "\<forall>ch \<in> set (waiters c). count_list (waiters c) ch \<le> room h ch"
  let ?v = "last_count c + 1"
  let ?c' = "c\<lparr>values_map := S, last_count := ?v, waiters := []\<rparr>"
  let ?h' = "\<lambda>a. arrive (count_list (waiters c) (Ptr a)) ?v (h a)"
  let ?ds = "map (\<lambda>ch. (ch, ?v)) (waiters c)"
  have u: "Update c S h = Returns (?c', ?h', ?ds)"
    by (rule Update_returns_exact [OF r])
  have o: "\<forall>a. Ptr a \<notin> set (waiters c) \<longrightarrow> ?h' a = h a"
    by (simp add: arrive_0)
  have cn: "\<forall>ch. count_list (map fst ?ds) ch = count_list (waiters c) ch"
    by (simp add: comp_def)
  have d: "distinct (waiters c) \<longrightarrow>
                (\<forall>ch \<in> set (waiters c). count_list (map fst ?ds) ch = 1
                    \<and> ?h' (deref ch) = arrive 1 ?v (h (deref ch))
                    \<and> (recvq (h (deref ch)) = 0 \<longrightarrow>
                         buf (?h' (deref ch)) = buf (h (deref ch)) @ [?v])
                    \<and> (0 < recvq (h (deref ch)) \<longrightarrow>
                         taken (?h' (deref ch)) = taken (h (deref ch)) @ [?v]))"
  proof (intro impI ballI)
    fix ch
    assume dist: "distinct (waiters c)" and ch: "ch \<in> set (waiters c)"
    then have one: "count_list (waiters c) ch = 1" by (rule distinct_count_list_one)
    with r ch have "0 < room h ch" by fastforce
    then obtain a where a: "ch = Ptr a" by (cases ch) auto
    from one a have ha: "?h' (deref ch) = arrive 1 ?v (h (deref ch))" by simp
    from one cn have c1: "count_list (map fst ?ds) ch = 1" by simp
    have b: "recvq (h (deref ch)) = 0 \<longrightarrow> buf (?h' (deref ch)) = buf (h (deref ch)) @ [?v]"
      using arrive_1_buf [of "h (deref ch)" ?v] by (simp only: ha) blast
    have t: "0 < recvq (h (deref ch)) \<longrightarrow> taken (?h' (deref ch)) = taken (h (deref ch)) @ [?v]"
      using arrive_1_taken [of "h (deref ch)" ?v] by (simp only: ha) blast
    from c1 ha b t
    show "count_list (map fst ?ds) ch = 1
                    \<and> ?h' (deref ch) = arrive 1 ?v (h (deref ch))
                    \<and> (recvq (h (deref ch)) = 0 \<longrightarrow>
                         buf (?h' (deref ch)) = buf (h (deref ch)) @ [?v])
                    \<and> (0 < recvq (h (deref ch)) \<longrightarrow>
                         taken (?h' (deref ch)) = taken (h (deref ch)) @ [?v])"
      by (intro conjI)
  qed
  have n: "Update ?c' S' ?h' = Returns (?c'\<lparr>values_map := S', last_count := last_count ?c' + 1\<rparr>, ?h', [])"
    by (simp add: Update_def notify_def Let_def)
  have w: "waiters ?c' = []" by simp
  from u o cn d n w
  show "\<exists>c' h' ds. Update c S h = Returns (c', h', ds)
           \<and> c' = c\<lparr>values_map := S, last_count := last_count c + 1, waiters := []\<rparr>
           \<and> waiters c' = []
           \<and> ds = map (\<lambda>ch. (ch, last_count c + 1)) (waiters c)
           \<and> h' = (\<lambda>a. arrive (count_list (waiters c) (Ptr a)) (last_count c + 1) (h a))
           \<and> (\<forall>a. Ptr a \<notin> set (waiters c) \<longrightarrow> h' a = h a)
           \<and> (\<forall>ch. count_list (map fst ds) ch = count_list (waiters c) ch)
           \<and> (distinct (waiters c) \<longrightarrow>
                (\<forall>ch \<in> set (waiters c). count_list (map fst ds) ch = 1
                    \<and> h' (deref ch) = arrive 1 (last_count c + 1) (h (deref ch))
                    \<and> (recvq (h (deref ch)) = 0 \<longrightarrow>
                         buf (h' (deref ch)) = buf (h (deref ch)) @ [last_count c + 1])
                    \<and> (0 < recvq (h (deref ch)) \<longrightarrow>
                         taken (h' (deref ch)) = taken (h (deref ch)) @ [last_count c + 1])))
           \<and> Update c' S' h' = Returns (c'\<lparr>values_map := S', last_count := last_count c' + 1\<rparr>, h', [])"
    by (intro exI [of _ ?c'] exI [of _ ?h'] exI [of _ ?ds] conjI refl)
qed

theorem Update_delivers_once_witness:
  "sent_of (Update (cache_at 3 [Ptr 0, Ptr 1]) Map.empty fresh_chans) = [(Ptr 0, 4), (Ptr 1, 4)]
   \<and> buf (heap_of (Update (cache_at 3 [Ptr 0, Ptr 1]) Map.empty fresh_chans) 0) = [4]
   \<and> buf (heap_of (Update (cache_at 3 [Ptr 0, Ptr 1]) Map.empty fresh_chans) 1) = [4]
   \<and> buf (heap_of (Update (cache_at 3 [Ptr 0, Ptr 1]) Map.empty fresh_chans) 2) = []
   \<and> waiters (cache_of (Update (cache_at 3 [Ptr 0, Ptr 1]) Map.empty fresh_chans)) = []
   \<and> returns (Update (cache_at 3 [Ptr 0, Ptr 1]) Map.empty fresh_chans)"
proof -
  let ?c = "cache_at 3 [Ptr 0, Ptr 1]"
  have r: "\<forall>ch \<in> set (waiters ?c). count_list (waiters ?c) ch \<le> room fresh_chans ch"
    by (simp add: cache_at_def fresh_chans_def)
  from Update_delivers_once [where c = ?c and S = Map.empty and h = fresh_chans and S' = Map.empty] r
  obtain c' h' ds where u: "Update ?c Map.empty fresh_chans = Returns (c', h', ds)"
    and c': "c' = ?c\<lparr>values_map := Map.empty, last_count := last_count ?c + 1, waiters := []\<rparr>"
    and ds: "ds = map (\<lambda>ch. (ch, last_count ?c + 1)) (waiters ?c)"
    and h': "h' = (\<lambda>a. arrive (count_list (waiters ?c) (Ptr a)) (last_count ?c + 1) (fresh_chans a))"
    by blast
  from ds have 1: "ds = [(Ptr 0, 4), (Ptr 1, 4)]" by (simp add: cache_at_def)
  from h' have 2: "buf (h' 0) = [4]" "buf (h' 1) = [4]" "buf (h' 2) = []"
    by (simp_all add: cache_at_def arrive_def fresh_chans_def)
  from c' have 3: "waiters c' = []" by simp
  from 1 2 3 show ?thesis unfolding u by simp
qed

text \<open>
  C3, as amended: the counter of a new cache is 0 and every \<^verbatim>\<open>Update\<close> call adds 1 to it
  as a 64-bit integer, whether or not the call returns; \<^verbatim>\<open>Register\<close> leaves it alone. The
  counter read as a signed number grows by 1 as long as it is below \<open>2 ^ 63 - 1\<close>, so after
  \<open>n < 2 ^ 63\<close> updates of a new cache it is \<open>n\<close>.
\<close>

theorem version_counts_updates:
  "last_count zero_clusterCache = 0
   \<and> last_count (cache_of (Update c S h)) = last_count c + 1
   \<and> last_count (cache_of (Register c w lst h)) = last_count c
   \<and> (sint (last_count c) < 2 ^ 63 - 1 \<longrightarrow>
        sint (last_count (cache_of (Update c S h))) = sint (last_count c) + 1)
   \<and> (length Ss < 2 ^ 63 \<longrightarrow>
        (\<exists>c'. Updates zero_clusterCache h Ss = Returns (c', h, []) \<and> sint (last_count c') = int (length Ss)))"
proof (intro conjI impI)
  show "last_count zero_clusterCache = 0" by (simp add: zero_clusterCache_def)
  show u: "last_count (cache_of (Update c S h)) = last_count c + 1"
    by (rule Update_last_count)
  show "last_count (cache_of (Register c w lst h)) = last_count c"
    by (simp add: Register_def split: send_result.splits)
  show "sint (last_count (cache_of (Update c S h))) = sint (last_count c) + 1"
    if "sint (last_count c) < 2 ^ 63 - 1"
    using that by (simp only: u sint_succ)
  show "\<exists>c'. Updates zero_clusterCache h Ss = Returns (c', h, []) \<and> sint (last_count c') = int (length Ss)"
    if "length Ss < 2 ^ 63"
  proof -
    have "waiters zero_clusterCache = []" by (simp add: zero_clusterCache_def)
    from Updates_no_waiters [OF this, of h Ss] sint_small [OF that]
    show ?thesis by (simp add: zero_clusterCache_def)
  qed
qed

theorem version_counts_updates_witness:
  "sint (last_count (cache_of (Update (cache_at 7 []) Map.empty fresh_chans))) = 8
   \<and> (\<exists>c'. Updates zero_clusterCache fresh_chans [Map.empty, Map.empty, Map.empty] = Returns (c', fresh_chans, [])
         \<and> sint (last_count c') = 3)"
  using version_counts_updates [of "cache_at 7 []" Map.empty fresh_chans "Ptr 0" 0 "[Map.empty, Map.empty, Map.empty]"]
  by (simp add: cache_at_def)

text \<open>
  The claim as stated fails at the \<open>2 ^ 63\<close>-th update of a new cache: the counter wraps
  around to \<open>- (2 ^ 63)\<close>, below its value after \<open>2 ^ 63 - 1\<close> updates.
\<close>

theorem version_wraps_counterexample:
  "returns (Updates zero_clusterCache fresh_chans (replicate (2 ^ 63) Map.empty))
   \<and> sint (last_count (cache_of (Updates zero_clusterCache fresh_chans (replicate (2 ^ 63) Map.empty))))
     < sint (last_count (cache_of (Updates zero_clusterCache fresh_chans (replicate (2 ^ 63 - 1) Map.empty))))"
proof -
  have w: "waiters zero_clusterCache = []" by (simp add: zero_clusterCache_def)
  have z: "last_count zero_clusterCache = 0" by (simp add: zero_clusterCache_def)
  have a: "last_count (cache_of (Updates zero_clusterCache fresh_chans (replicate n Map.empty)))
             = of_nat n" for n
    by (simp only: Updates_no_waiters [OF w] state_of.simps fst_conv length_replicate z) simp
  have b: "returns (Updates zero_clusterCache fresh_chans (replicate n Map.empty))" for n
    by (simp only: Updates_no_waiters [OF w] returns.simps)
  have c: "sint (of_nat (2 ^ 63) :: 64 word) < sint (of_nat (2 ^ 63 - 1) :: 64 word)"
    by simp
  show ?thesis
    by (simp only: a b c simp_thms)
qed

section \<open>Sends and blocking\<close>

text \<open>
  C4, as amended: every delivery is an ordinary channel send made under the lock. It
  completes exactly when the channel has room: it is not nil, not closed, and has a parked
  receiver or a free buffer slot. So \<^verbatim>\<open>Register\<close> returns exactly when the caller is not
  stale or its channel has room, and \<^verbatim>\<open>Update\<close> returns exactly when every pending channel
  has room for the sends due to it; otherwise the call stays blocked or panics.
\<close>

theorem send_completes_iff_room:
  "((\<exists>h'. chansend ch v h = Sent h') \<longleftrightarrow> 0 < room h ch)
   \<and> (returns (Register c ch lst h) \<longleftrightarrow> (sint lst < sint (last_count c) \<longrightarrow> 0 < room h ch))
   \<and> (sint lst < sint (last_count c) \<and> room h ch = 0 \<longrightarrow>
        Register c ch lst h =
          (if ch \<noteq> Null \<and> chan_closed (h (deref ch)) then Panics (c, h, []) else Blocks (c, h, [])))
   \<and> (returns (Update c S h) \<longleftrightarrow> (\<forall>w \<in> set (waiters c). count_list (waiters c) w \<le> room h w))"
proof (intro conjI)
  show "(\<exists>h'. chansend ch v h = Sent h') \<longleftrightarrow> 0 < room h ch"
    using chansend_room [of h ch v] chansend_Sent_room [of ch v h] by blast
  show "returns (Register c ch lst h) \<longleftrightarrow> (sint lst < sint (last_count c) \<longrightarrow> 0 < room h ch)"
    by (rule Register_returns_iff)
  show "sint lst < sint (last_count c) \<and> room h ch = 0 \<longrightarrow>
        Register c ch lst h =
          (if ch \<noteq> Null \<and> chan_closed (h (deref ch)) then Panics (c, h, []) else Blocks (c, h, []))"
    by (cases ch) (auto simp: Register_def split: if_splits)
  show "returns (Update c S h) \<longleftrightarrow> (\<forall>w \<in> set (waiters c). count_list (waiters c) w \<le> room h w)"
    by (rule Update_returns_iff)
qed

theorem send_completes_iff_room_witness:
  "0 < room fresh_chans (Ptr 0)
   \<and> (\<exists>h'. chansend (Ptr 0) 1 fresh_chans = Sent h')
   \<and> returns (Register (cache_at 1 []) (Ptr 0) 0 fresh_chans)
   \<and> returns (Update (cache_at 0 [Ptr 0]) Map.empty fresh_chans)
   \<and> room full_chans (Ptr 0) = 0
   \<and> Register (cache_at 1 []) (Ptr 0) 0 full_chans = Blocks (cache_at 1 [], full_chans, [])
   \<and> \<not> returns (Update (cache_at 0 [Ptr 0]) Map.empty full_chans)"
proof -
  note t = send_completes_iff_room [where ch = "Ptr 0" and v = 1 and lst = 0 and S = Map.empty]
  have fresh: "0 < room fresh_chans (Ptr 0)" and full: "room full_chans (Ptr 0) = 0"
    by (simp_all add: fresh_chans_def full_chans_def)
  have stale: "sint (0 :: go_int) < sint (last_count (cache_at 1 []))"
    by (simp add: cache_at_def)
  from t [where h = fresh_chans and c = "cache_at 1 []"] fresh
  have 1: "\<exists>h'. chansend (Ptr 0) 1 fresh_chans = Sent h'"
    and 2: "returns (Register (cache_at 1 []) (Ptr 0) 0 fresh_chans)"
    by simp_all
  from t [where h = fresh_chans and c = "cache_at 0 [Ptr 0]"] fresh
  have 3: "returns (Update (cache_at 0 [Ptr 0]) Map.empty fresh_chans)"
    by (simp add: cache_at_def)
  from t [where h = full_chans and c = "cache_at 1 []"] full stale
  have 4: "Register (cache_at 1 []) (Ptr 0) 0 full_chans = Blocks (cache_at 1 [], full_chans, [])"
    by (simp add: full_chans_def)
  from t [where h = full_chans and c = "cache_at 0 [Ptr 0]"] full
  have 5: "\<not> returns (Update (cache_at 0 [Ptr 0]) Map.empty full_chans)"
    by (simp add: cache_at_def)
  from fresh full 1 2 3 4 5 show ?thesis by blast
qed

text \<open>
  The claim as stated fails on a channel of capacity 1 that already holds a value: the
  send in \<^verbatim>\<open>Register\<close> blocks, and so does the send in \<^verbatim>\<open>Update\<close>.
\<close>

theorem delivery_blocks_on_full_channel:
  "Register (cache_at 1 []) (Ptr 0) 0 full_chans = Blocks (cache_at 1 [], full_chans, [])
   \<and> Update (cache_at 0 [Ptr 0]) Map.empty full_chans = Blocks (cache_at 1 [Ptr 0], full_chans, [])"
  by (simp add: Register_def Update_def notify_def cache_at_def full_chans_def)

section \<open>Reading the cache\<close>

text \<open>
  The loop collects the objects that pass the filter, in the order of the keys; an entry
  that is a nil pointer makes it panic.
\<close>

lemma Values_range_entries:
  assumes "set ks \<subseteq> dom m" "\<forall>k \<in> set ks. m k \<noteq> Some Null"
  shows "Values_range flt m ks vs =
           Some (vs @ filter (\<lambda>v. flt (Name v)) (map (\<lambda>k. deref (the (m k))) ks))"
  using assms
proof (induction ks arbitrary: vs)
  case Nil
  then show ?case by simp
next
  case (Cons k ks)
  from Cons.prems obtain v where v: "m k = Some (Ptr v)"
    by (cases "m k"; cases "the (m k)") auto
  from Cons.prems have "set ks \<subseteq> dom m" "\<forall>k \<in> set ks. m k \<noteq> Some Null" by auto
  from Cons.IH [OF this] v show ?case by simp
qed

lemma Values_range_nil:
  assumes "k \<in> set ks" "m k = Some Null"
  shows "Values_range flt m ks vs = None"
  using assms
proof (induction ks arbitrary: vs)
  case Nil
  then show ?case by simp
next
  case (Cons a ks)
  show ?case
  proof (cases "a = k")
    case True
    with Cons.prems show ?thesis by simp
  next
    case False
    with Cons.prems have "k \<in> set ks" by simp
    from Cons.IH [OF this Cons.prems(2)] show ?thesis
      by (simp split: option.splits ptr.splits)
  qed
qed

text \<open>
  C5: \<^verbatim>\<open>Update(S)\<close> leaves \<open>S\<close> as the stored map in every outcome, so also when it
  returns, whatever the cache held before; on that state
  \<^verbatim>\<open>Values\<close> returns the objects of \<open>S\<close> whose name satisfies the filter, each entry once,
  in the order \<open>ks\<close> in which the loop meets the keys; with the filter that is always true
  these are all the objects of \<open>S\<close>. Here \<open>S\<close> holds no nil pointer and \<open>ks\<close> lists the
  keys of \<open>S\<close> once each.
\<close>

theorem Values_after_Update:
  assumes "distinct ks" "set ks = dom S" "\<forall>k \<in> dom S. S k \<noteq> Some Null"
  shows "values_map (cache_of (Update c S h)) = S
     \<and> (\<exists>vs. Values (cache_of (Update c S h)) ks flt = Some vs
           \<and> mset vs = filter_mset (\<lambda>v. flt (Name v))
                          (image_mset (\<lambda>k. deref (the (S k))) (mset_set (dom S))))
     \<and> (\<exists>vs. Values (cache_of (Update c S h)) ks (\<lambda>n. True) = Some vs
           \<and> mset vs = image_mset (\<lambda>k. deref (the (S k))) (mset_set (dom S)))"
proof -
  have sub: "set ks \<subseteq> dom S" and nn: "\<forall>k \<in> set ks. S k \<noteq> Some Null"
    using assms by auto
  have ms: "mset_set (dom S) = mset ks"
    using assms(1,2) mset_set_set [of ks] by simp
  have v: "Values (cache_of (Update c S h)) ks f =
             Some (filter (\<lambda>v. f (Name v)) (map (\<lambda>k. deref (the (S k))) ks))" for f
    by (simp add: Values_def Update_values_map Values_range_entries [OF sub nn])
  show ?thesis
    by (simp add: v ms Update_values_map)
qed

theorem Values_after_Update_witness:
  "Values (cache_of (Update (cache_at 0 []) [''a'' \<mapsto> Ptr (cluster_named ''a''), ''b'' \<mapsto> Ptr (cluster_named ''b'')] fresh_chans))
      [''b'', ''a''] (\<lambda>n. True) = Some [cluster_named ''b'', cluster_named ''a'']
   \<and> mset [cluster_named ''b'', cluster_named ''a'']
       = image_mset (\<lambda>k. deref (the ([''a'' \<mapsto> Ptr (cluster_named ''a''), ''b'' \<mapsto> Ptr (cluster_named ''b'')] k))) (mset_set {''a'', ''b''})"
proof -
  let ?S = "[''a'' \<mapsto> Ptr (cluster_named ''a''), ''b'' \<mapsto> Ptr (cluster_named ''b'')]"
  have d: "distinct [''b'', ''a'']" by simp
  have k: "set [''b'', ''a''] = dom ?S" by auto
  have n: "\<forall>k \<in> dom ?S. ?S k \<noteq> Some Null" by simp
  have dm: "dom ?S = {''a'', ''b''}" by auto
  have ev: "Values (cache_of (Update (cache_at 0 []) ?S fresh_chans)) [''b'', ''a''] (\<lambda>n. True)
          = Some [cluster_named ''b'', cluster_named ''a'']"
    by (simp add: Values_def Update_def notify_def cache_at_def)
  from Values_after_Update [OF d k n, of "cache_at 0 []" fresh_chans "\<lambda>n. True"] ev
  show ?thesis by (simp only: dm) simp
qed

section \<open>The visitor\<close>

lemma Name_edscluster_build: "Name (edscluster_build E n s) = n"
  by (simp add: edscluster_build_def Let_def)

lemma edscluster_unfold:
  "edscluster E s m =
     (if m (Clustername E s) \<noteq> None then m
      else m(Clustername E s \<mapsto> Ptr (edscluster_build E (Clustername E s) s)))"
  by (simp add: edscluster_def Let_def Name_edscluster_build)

lemma edscluster_lookup:
  "edscluster E s m n =
     (case m n of
        Some x \<Rightarrow> Some x
      | None \<Rightarrow> if Clustername E s = n then Some (Ptr (edscluster_build E n s)) else None)"
  by (auto simp: edscluster_unfold split: option.splits)

lemma fold_edscluster_lookup:
  "fold (edscluster E) ss m n =
     (case m n of
        Some x \<Rightarrow> Some x
      | None \<Rightarrow> map_option (\<lambda>s. Ptr (edscluster_build E n s)) (find (\<lambda>s. Clustername E s = n) ss))"
proof (induction ss arbitrary: m)
  case Nil
  then show ?case by (simp split: option.splits)
next
  case (Cons s ss)
  have "fold (edscluster E) (s # ss) m n = fold (edscluster E) ss (edscluster E s m) n"
    by simp
  also have "\<dots> = (case edscluster E s m n of
        Some x \<Rightarrow> Some x
      | None \<Rightarrow> map_option (\<lambda>s. Ptr (edscluster_build E n s)) (find (\<lambda>s. Clustername E s = n) ss))"
    by (rule Cons.IH)
  also have "\<dots> = (case m n of
        Some x \<Rightarrow> Some x
      | None \<Rightarrow> map_option (\<lambda>s. Ptr (edscluster_build E n s)) (find (\<lambda>s. Clustername E s = n) (s # ss)))"
    by (simp add: edscluster_lookup split: option.splits)
  finally show ?case .
qed

lemma fold_visit_services:
  assumes "\<And>v m. v \<in> set vs \<Longrightarrow> visit E v m = fold (edscluster E) (services v) m"
  shows "fold (visit E) vs m = fold (edscluster E) (concat (map services vs)) m"
  using assms
proof (induction vs arbitrary: m)
  case Nil
  then show ?case by simp
next
  case (Cons v vs)
  then show ?case by simp
qed

lemma visit_services: "visit E v m = fold (edscluster E) (services v) m"
proof (induction v arbitrary: m)
  case (ServiceVertex s cs)
  have "fold (visit E) cs m' = fold (edscluster E) (concat (map services cs)) m'" for m'
    by (rule fold_visit_services) (rule ServiceVertex.IH)
  then show ?case by simp
next
  case (OtherVertex cs)
  have "fold (visit E) cs m' = fold (edscluster E) (concat (map services cs)) m'" for m'
    by (rule fold_visit_services) (rule OtherVertex.IH)
  then show ?case by simp
qed

lemma Visit_services: "Visit E roots = fold (edscluster E) (concat (map services roots)) Map.empty"
  unfolding Visit_def by (rule fold_visit_services) (rule visit_services)

text \<open>
  C6: the map that \<^verbatim>\<open>Visit\<close> returns has an entry under a name exactly when some service
  of the graph has that name, and the entry is the cluster built from the first such
  service in the order of the visit. A service whose name is not yet in the map gets its
  cluster entered; one whose name is already there leaves the map as it is, and the visit
  goes on into its children all the same.
\<close>

theorem Visit_first_wins:
  "Visit E roots n =
     map_option (\<lambda>s. Ptr (edscluster_build E n s))
       (find (\<lambda>s. Clustername E s = n) (concat (map services roots)))
   \<and> (n \<in> dom (Visit E roots) \<longleftrightarrow> (\<exists>s \<in> set (concat (map services roots)). Clustername E s = n))
   \<and> (m (Clustername E s) = None \<longrightarrow>
        edscluster E s m = m(Clustername E s \<mapsto> Ptr (edscluster_build E (Clustername E s) s)))
   \<and> (m (Clustername E s) \<noteq> None \<longrightarrow> edscluster E s m = m)
   \<and> (m (Clustername E s) \<noteq> None \<longrightarrow>
        visit E (ServiceVertex s children) m = fold (visit E) children m)"
proof -
  have v: "Visit E roots n =
     map_option (\<lambda>s. Ptr (edscluster_build E n s))
       (find (\<lambda>s. Clustername E s = n) (concat (map services roots)))"
    by (simp add: Visit_services fold_edscluster_lookup)
  have d: "n \<in> dom (Visit E roots) \<longleftrightarrow> (\<exists>s \<in> set (concat (map services roots)). Clustername E s = n)"
  proof -
    have "n \<in> dom (Visit E roots) \<longleftrightarrow>
            find (\<lambda>s. Clustername E s = n) (concat (map services roots)) \<noteq> None"
      by (simp only: v domIff map_option_is_None)
    also have "\<dots> \<longleftrightarrow> (\<exists>s \<in> set (concat (map services roots)). Clustername E s = n)"
      by (simp only: find_None_iff) blast
    finally show ?thesis .
  qed
  from v d show ?thesis by (simp add: edscluster_unfold del: set_concat)
qed

theorem Visit_first_wins_witness:
  "Visit example_deps example_graph ''default/web''
     = Some (Ptr (edscluster_build example_deps ''default/web'' (example_service ''default'' ''web'' ''http'' ''h2'')))
   \<and> Visit example_deps example_graph ''default/api''
     = Some (Ptr (edscluster_build example_deps ''default/api'' (example_service ''default'' ''api'' [] [])))
   \<and> Visit example_deps example_graph ''default/db'' = None
   \<and> edscluster example_deps (example_service ''default'' ''web'' ''http'' ''h2c'')
        (Visit example_deps example_graph) = Visit example_deps example_graph"
  using Visit_first_wins [of example_deps example_graph "''default/web''"
      "Visit example_deps example_graph" "example_service ''default'' ''web'' ''http'' ''h2c''"]
    Visit_first_wins [of example_deps example_graph "''default/api''"]
    Visit_first_wins [of example_deps example_graph "''default/db''"]
  by (simp add: example_graph_def example_deps_def example_service_def)

lemma takeWhile_slash:
  "slash_free a \<Longrightarrow> takeWhile (\<lambda>c. c \<noteq> CHR ''/'') (a @ CHR ''/'' # r) = a"
  by (induction a) (auto simp: slash_free_def)

lemma slash_split_unique:
  assumes "slash_free a" "slash_free a'" "a @ CHR ''/'' # r = a' @ CHR ''/'' # r'"
  shows "a = a' \<and> r = r'"
proof -
  have "a = takeWhile (\<lambda>c. c \<noteq> CHR ''/'') (a @ CHR ''/'' # r)"
    using assms(1) by (simp add: takeWhile_slash)
  also have "\<dots> = a'"
    using assms(2,3) by (simp add: takeWhile_slash)
  finally have "a = a'" .
  with assms(3) show ?thesis by simp
qed

lemma ServiceName_edsconfig:
  "ServiceName (deref (edsconfig source s)) =
     (if svc_ServicePort_Name s = [] then svc_Namespace s @ ''/'' @ svc_Name s
      else svc_Namespace s @ ''/'' @ svc_Name s @ ''/'' @ svc_ServicePort_Name s)"
  by (simp add: edsconfig_def Let_def)

lemma ServiceName_inj:
  assumes "slash_free_names s" "slash_free_names t"
    and eq: "ServiceName (deref (edsconfig source s)) = ServiceName (deref (edsconfig source' t))"
  shows "svc_Namespace s = svc_Namespace t \<and> svc_Name s = svc_Name t
         \<and> svc_ServicePort_Name s = svc_ServicePort_Name t"
proof -
  from assms(1,2) have sf: "slash_free (svc_Namespace s)" "slash_free (svc_Name s)"
      "slash_free (svc_Namespace t)" "slash_free (svc_Name t)"
    by (simp_all add: slash_free_names_def)
  let ?rs = "if svc_ServicePort_Name s = [] then svc_Name s
             else svc_Name s @ CHR ''/'' # svc_ServicePort_Name s"
  let ?rt = "if svc_ServicePort_Name t = [] then svc_Name t
             else svc_Name t @ CHR ''/'' # svc_ServicePort_Name t"
  from eq have "svc_Namespace s @ CHR ''/'' # ?rs = svc_Namespace t @ CHR ''/'' # ?rt"
    by (simp add: ServiceName_edsconfig split: if_splits)
  from slash_split_unique [OF sf(1) sf(3) this]
  have ns: "svc_Namespace s = svc_Namespace t" and r: "?rs = ?rt" by simp_all
  have no: "a \<noteq> b @ CHR ''/'' # p" if "slash_free a" for a b p
    using that by (auto simp: slash_free_def)
  show ?thesis
  proof (cases "svc_ServicePort_Name s = []")
    case True
    show ?thesis
    proof (cases "svc_ServicePort_Name t = []")
      case True
      with \<open>svc_ServicePort_Name s = []\<close> r ns show ?thesis by simp
    next
      case False
      with True r no [OF sf(2)] show ?thesis by simp
    qed
  next
    case False
    show ?thesis
    proof (cases "svc_ServicePort_Name t = []")
      case True
      with False r no [OF sf(4), of "svc_Name s" "svc_ServicePort_Name s"] show ?thesis by simp
    next
      case pt: False
      with False r have "svc_Name s @ CHR ''/'' # svc_ServicePort_Name s
                       = svc_Name t @ CHR ''/'' # svc_ServicePort_Name t" by simp
      from slash_split_unique [OF sf(2) sf(4) this] ns show ?thesis by simp
    qed
  qed
qed

text \<open>
  C7: the service name that \<^verbatim>\<open>edsconfig\<close> gives a cluster is namespace, name and port
  name joined by slashes, without the port when the port has no name. Two services whose
  namespace, name and port name hold no slash and that have the same such string have the
  same namespace, name and port name.
\<close>

theorem edsconfig_identity:
  "ServiceName (deref (edsconfig source s)) =
     (if svc_ServicePort_Name s = [] then svc_Namespace s @ ''/'' @ svc_Name s
      else svc_Namespace s @ ''/'' @ svc_Name s @ ''/'' @ svc_ServicePort_Name s)
   \<and> EdsClusterConfig (edscluster_build E n s) = edsconfig ''contour'' s
   \<and> (slash_free_names s \<and> slash_free_names t
        \<and> ServiceName (deref (edsconfig source s)) = ServiceName (deref (edsconfig source' t)) \<longrightarrow>
       svc_Namespace s = svc_Namespace t \<and> svc_Name s = svc_Name t
       \<and> svc_ServicePort_Name s = svc_ServicePort_Name t)"
proof (intro conjI impI)
  show "ServiceName (deref (edsconfig source s)) =
     (if svc_ServicePort_Name s = [] then svc_Namespace s @ ''/'' @ svc_Name s
      else svc_Namespace s @ ''/'' @ svc_Name s @ ''/'' @ svc_ServicePort_Name s)"
    by (rule ServiceName_edsconfig)
  show "EdsClusterConfig (edscluster_build E n s) = edsconfig ''contour'' s"
    by (simp add: edscluster_build_def Let_def)
qed (use ServiceName_inj in blast)+

theorem edsconfig_identity_witness:
  "slash_free_names (example_service ''default'' ''web'' ''http'' [])
   \<and> slash_free_names (example_service ''default'' ''web'' ''http'' ''h2'')
   \<and> ServiceName (deref (edsconfig ''contour'' (example_service ''default'' ''web'' ''http'' []))) = ''default/web/http''
   \<and> ServiceName (deref (edsconfig ''contour'' (example_service ''default'' ''web'' [] []))) = ''default/web''
   \<and> ServiceName (deref (edsconfig ''contour'' (example_service ''default'' ''web'' ''http'' [])))
        = ServiceName (deref (edsconfig ''contour'' (example_service ''default'' ''web'' ''http'' ''h2'')))
   \<and> svc_ServicePort_Name (example_service ''default'' ''web'' ''http'' [])
        = svc_ServicePort_Name (example_service ''default'' ''web'' ''http'' ''h2'')"
  using edsconfig_identity [of "''contour''" "example_service ''default'' ''web'' ''http'' []" example_deps "[]"
      "example_service ''default'' ''web'' ''http'' ''h2''" "''contour''"]
    edsconfig_identity [of "''contour''" "example_service ''default'' ''web'' [] []" example_deps "[]"
      "example_service ''default'' ''web'' [] []" "''contour''"]
  by (simp add: ServiceName_edsconfig example_service_def slash_free_names_def slash_free_def)




lemma uint32_below_2_32: "uint (x :: 32 word) \<noteq> sint (4294967296 :: 64 word)"
  using uint_lt2p [of x] by simp





text \<open>
  C9: protocol \<^verbatim>\<open>h2\<close> sets the HTTP/2 options and a TLS context whose ALPN protocols are
  \<^verbatim>\<open>h2\<close> alone; \<^verbatim>\<open>h2c\<close> sets the HTTP/2 options and no TLS context; any other
  protocol sets neither. Whatever the protocol, a service whose name is not yet in the map
  gets its cluster entered, and the map that \<^verbatim>\<open>Visit\<close> returns holds, under a name, the
  options that the protocol of the first service of that name selects.
\<close>

theorem protocol_three_way:
  "(svc_Protocol s = ''h2'' \<longrightarrow>
      Http2ProtocolOptions (edscluster_build E n s) = Ptr Http2ProtocolOptions_zero
      \<and> TlsContext (edscluster_build E n s)
          = Ptr \<lparr>CommonTlsContext = Ptr \<lparr>AlpnProtocols = [''h2'']\<rparr>\<rparr>)
   \<and> (svc_Protocol s = ''h2c'' \<longrightarrow>
      Http2ProtocolOptions (edscluster_build E n s) = Ptr Http2ProtocolOptions_zero
      \<and> TlsContext (edscluster_build E n s) = Null)
   \<and> (svc_Protocol s \<noteq> ''h2'' \<and> svc_Protocol s \<noteq> ''h2c'' \<longrightarrow>
      Http2ProtocolOptions (edscluster_build E n s) = Null
      \<and> TlsContext (edscluster_build E n s) = Null)
   \<and> (m (Clustername E s) = None \<longrightarrow>
      edscluster E s m (Clustername E s) = Some (Ptr (edscluster_build E (Clustername E s) s)))
   \<and> (find (\<lambda>s. Clustername E s = n) (concat (map services roots)) = Some s \<longrightarrow>
      (\<exists>c. Visit E roots n = Some (Ptr c)
         \<and> Http2ProtocolOptions c
             = (if svc_Protocol s = ''h2'' \<or> svc_Protocol s = ''h2c''
                then Ptr Http2ProtocolOptions_zero else Null)
         \<and> TlsContext c
             = (if svc_Protocol s = ''h2''
                then Ptr \<lparr>CommonTlsContext = Ptr \<lparr>AlpnProtocols = [''h2'']\<rparr>\<rparr> else Null)))"
proof (intro conjI impI)
  let ?c = "edscluster_build E n s"
  have h2: "Http2ProtocolOptions ?c
      = (if svc_Protocol s = ''h2'' \<or> svc_Protocol s = ''h2c'' then Ptr Http2ProtocolOptions_zero else Null)"
    by (simp add: edscluster_build_def Let_def)
  have tls: "TlsContext ?c
      = (if svc_Protocol s = ''h2'' then Ptr \<lparr>CommonTlsContext = Ptr \<lparr>AlpnProtocols = [''h2'']\<rparr>\<rparr> else Null)"
    by (simp add: edscluster_build_def Let_def)
  show "Http2ProtocolOptions ?c = Ptr Http2ProtocolOptions_zero" if "svc_Protocol s = ''h2''"
    using that by (simp add: h2)
  show "TlsContext ?c = Ptr \<lparr>CommonTlsContext = Ptr \<lparr>AlpnProtocols = [''h2'']\<rparr>\<rparr>"
    if "svc_Protocol s = ''h2''"
    using that by (simp add: tls)
  show "Http2ProtocolOptions ?c = Ptr Http2ProtocolOptions_zero" if "svc_Protocol s = ''h2c''"
    using that by (simp add: h2)
  show "TlsContext ?c = Null" if "svc_Protocol s = ''h2c''"
    using that by (simp add: tls)
  show "Http2ProtocolOptions ?c = Null" if "svc_Protocol s \<noteq> ''h2'' \<and> svc_Protocol s \<noteq> ''h2c''"
    using that by (simp add: h2)
  show "TlsContext ?c = Null" if "svc_Protocol s \<noteq> ''h2'' \<and> svc_Protocol s \<noteq> ''h2c''"
    using that by (simp add: tls)
  show "edscluster E s m (Clustername E s) = Some (Ptr (edscluster_build E (Clustername E s) s))"
    if "m (Clustername E s) = None"
    using that by (simp add: edscluster_lookup)
  show "\<exists>c. Visit E roots n = Some (Ptr c)
         \<and> Http2ProtocolOptions c
             = (if svc_Protocol s = ''h2'' \<or> svc_Protocol s = ''h2c''
                then Ptr Http2ProtocolOptions_zero else Null)
         \<and> TlsContext c
             = (if svc_Protocol s = ''h2''
                then Ptr \<lparr>CommonTlsContext = Ptr \<lparr>AlpnProtocols = [''h2'']\<rparr>\<rparr> else Null)"
    if f: "find (\<lambda>s. Clustername E s = n) (concat (map services roots)) = Some s"
  proof -
    have "Visit E roots n = Some (Ptr ?c)"
      by (simp add: Visit_services fold_edscluster_lookup f del: set_concat)
    with h2 tls show ?thesis by blast
  qed
qed

theorem protocol_three_way_witness:
  "Http2ProtocolOptions (edscluster_build example_deps ''default/web'' (example_service ''default'' ''web'' ''http'' ''h2''))
     = Ptr Http2ProtocolOptions_zero
   \<and> TlsContext (edscluster_build example_deps ''default/web'' (example_service ''default'' ''web'' ''http'' ''h2''))
     = Ptr \<lparr>CommonTlsContext = Ptr \<lparr>AlpnProtocols = [''h2'']\<rparr>\<rparr>
   \<and> Http2ProtocolOptions (edscluster_build example_deps ''default/web'' (example_service ''default'' ''web'' ''http'' ''h2c''))
     = Ptr Http2ProtocolOptions_zero
   \<and> TlsContext (edscluster_build example_deps ''default/web'' (example_service ''default'' ''web'' ''http'' ''h2c'')) = Null
   \<and> Http2ProtocolOptions (edscluster_build example_deps ''default/web'' (example_service ''default'' ''web'' ''http'' ''tls'')) = Null
   \<and> TlsContext (edscluster_build example_deps ''default/web'' (example_service ''default'' ''web'' ''http'' ''tls'')) = Null
   \<and> edscluster example_deps (example_service ''default'' ''web'' ''http'' ''tls'') Map.empty ''default/web''
     = Some (Ptr (edscluster_build example_deps ''default/web'' (example_service ''default'' ''web'' ''http'' ''tls'')))
   \<and> (\<exists>c. Visit example_deps example_graph ''default/web'' = Some (Ptr c)
         \<and> Http2ProtocolOptions c = Ptr Http2ProtocolOptions_zero
         \<and> TlsContext c = Ptr \<lparr>CommonTlsContext = Ptr \<lparr>AlpnProtocols = [''h2'']\<rparr>\<rparr>)"
proof -
  let ?h2 = "example_service ''default'' ''web'' ''http'' ''h2''"
  let ?h2c = "example_service ''default'' ''web'' ''http'' ''h2c''"
  let ?tls = "example_service ''default'' ''web'' ''http'' ''tls''"
  note t = protocol_three_way [where E = example_deps and n = "''default/web''" and m = Map.empty
      and roots = example_graph]
  have p: "svc_Protocol ?h2 = ''h2''" "svc_Protocol ?h2c = ''h2c''"
    "svc_Protocol ?tls \<noteq> ''h2'' \<and> svc_Protocol ?tls \<noteq> ''h2c''"
    by (simp_all add: example_service_def)
  have n: "Clustername example_deps ?tls = ''default/web''"
    by (simp add: example_service_def example_deps_def)
  have f: "find (\<lambda>s. Clustername example_deps s = ''default/web'')
             (concat (map services example_graph)) = Some ?h2"
    by (simp add: example_graph_def example_deps_def example_service_def)
  from t [where s = ?h2] p(1) f have 1:
    "Http2ProtocolOptions (edscluster_build example_deps ''default/web'' ?h2) = Ptr Http2ProtocolOptions_zero"
    "TlsContext (edscluster_build example_deps ''default/web'' ?h2)
       = Ptr \<lparr>CommonTlsContext = Ptr \<lparr>AlpnProtocols = [''h2'']\<rparr>\<rparr>"
    "\<exists>c. Visit example_deps example_graph ''default/web'' = Some (Ptr c)
         \<and> Http2ProtocolOptions c = Ptr Http2ProtocolOptions_zero
         \<and> TlsContext c = Ptr \<lparr>CommonTlsContext = Ptr \<lparr>AlpnProtocols = [''h2'']\<rparr>\<rparr>"
    by simp_all
  from t [where s = ?h2c] p(2) have 2:
    "Http2ProtocolOptions (edscluster_build example_deps ''default/web'' ?h2c) = Ptr Http2ProtocolOptions_zero"
    "TlsContext (edscluster_build example_deps ''default/web'' ?h2c) = Null"
    by simp_all
  from t [where s = ?tls] p(3) n have 3:
    "Http2ProtocolOptions (edscluster_build example_deps ''default/web'' ?tls) = Null"
    "TlsContext (edscluster_build example_deps ''default/web'' ?tls) = Null"
    "edscluster example_deps ?tls Map.empty ''default/web''
       = Some (Ptr (edscluster_build example_deps ''default/web'' ?tls))"
    by simp_all
  from 1 2 3 show ?thesis by blast
qed

end
